theory Spec2Isabelle
  imports Complex_Main "HOL-Library.AList" "HOL-Library.Multiset" "HOL-Library.Word"
begin

section \<open>The save\_video element of sophon-stream\<close>

text \<open>
  A shallow embedding of \<^verbatim>\<open>element/tools/save_video\<close> (\<^verbatim>\<open>save_video.h\<close>,
  \<^verbatim>\<open>save_video.cc\<close>).  C++ \<^verbatim>\<open>int\<close> values (class ids, counters, types) are
  modelled as \<^typ>\<open>int\<close>; the per-class counters only ever grow by one per frame, so the
  model describes runs in which no counter reaches \<open>2^31\<close>.  Strings are \<^typ>\<open>string\<close>.
  A nullable \<^verbatim>\<open>shared_ptr\<close> or \<^verbatim>\<open>optional\<close> is an \<^typ>\<open>'a option\<close>.
\<close>

subsection \<open>Data model (\<^verbatim>\<open>save_video.h\<close>)\<close>

record ServerEndpoint =
  scheme :: string
  host :: string
  port :: int
  path :: string

text \<open>\<^verbatim>\<open>ChannelState::PendingEvent\<close>; the member \<^verbatim>\<open>type\<close> is called \<open>alarm_type\<close>.\<close>

record PendingEvent =
  class_id :: int
  alarm_type :: int
  img_path :: string
  datetime_str :: string

text \<open>
  \<^verbatim>\<open>ChannelState\<close>.  \<open>writer\<close> tells whether the \<^verbatim>\<open>unique_ptr<cv::VideoWriter>\<close> is
  non-null; \<open>record_end_tp\<close> is a \<^verbatim>\<open>steady_clock\<close> time point in nanosecond ticks.
  \<^verbatim>\<open>per_class_consecutive_frames\<close> is an \<^verbatim>\<open>unordered_map<int,int>\<close>.
\<close>

record ChannelState =
  recording :: bool
  record_end_tp :: int
  writer :: bool
  fps :: int
  width :: int
  height :: int
  pending_video_path :: string
  per_class_consecutive_frames :: "int \<rightharpoonup> int"
  pending_events :: "PendingEvent list"
  suppressed_classes :: "int set"

text \<open>The default member initialisers of \<^verbatim>\<open>ChannelState\<close>.\<close>

definition ChannelState_init :: ChannelState where
  "ChannelState_init =
     \<lparr>recording = False, record_end_tp = 0, writer = False, fps = 25, width = 0, height = 0,
      pending_video_path = [], per_class_consecutive_frames = Map.empty,
      pending_events = [], suppressed_classes = {}\<rparr>"

text \<open>
  The members of class \<^verbatim>\<open>SaveVideo\<close> that \<^verbatim>\<open>initInternal\<close> writes (trailing underscores
  dropped).  \<^verbatim>\<open>type_map_\<close> is an association list because the code tests it for emptiness;
  \<^verbatim>\<open>channels_\<close> is threaded separately through \<open>doWork\<close>.
\<close>

record SaveVideo =
  server_url :: string
  endpoint :: "ServerEndpoint option"
  save_dir :: string
  base_file_url :: string
  record_seconds :: int
  trigger_classes :: "int set"
  retention_days :: int
  retention_max_gb :: real
  cleanup_interval_seconds :: int
  device_id :: string
  device_ip :: string
  safety_id :: string
  safety_name :: string
  warning :: string
  fixed_type :: "int option"
  type_map :: "(int \<times> int) list"
  use_class_id_type :: bool
  video_url_field :: string
  global_min_trigger_frames :: int
  per_class_min_trigger_frames :: "int \<rightharpoonup> int"
  cleanup_running :: bool

text \<open>The in-class member initialisers of \<^verbatim>\<open>SaveVideo\<close>.\<close>

definition SaveVideo_init :: SaveVideo where
  "SaveVideo_init =
     \<lparr>server_url = [], endpoint = None, save_dir = [], base_file_url = [], record_seconds = 10,
      trigger_classes = {}, retention_days = 0, retention_max_gb = 0,
      cleanup_interval_seconds = 300, device_id = [], device_ip = [], safety_id = [],
      safety_name = [], warning = [], fixed_type = None, type_map = [],
      use_class_id_type = False, video_url_field = ''safetyUrl'',
      global_min_trigger_frames = 1, per_class_min_trigger_frames = Map.empty,
      cleanup_running = False\<rparr>"

text \<open>
  One element of \<^verbatim>\<open>mDetectedObjectMetadatas\<close>: \<open>None\<close> is a null pointer, \<open>Some c\<close> an
  object whose \<^verbatim>\<open>mClassify\<close> is \<open>c\<close>.
\<close>

type_synonym detection = "int option"

subsection \<open>Type resolution (\<^verbatim>\<open>SaveVideo::resolveType\<close>)\<close>

text \<open>The loop \<^verbatim>\<open>for (auto &d : dets) if (d && d->mClassify >= 0) return d->mClassify;\<close>\<close>

fun first_valid :: "detection list \<Rightarrow> int option" where
  "first_valid [] = None"
| "first_valid (None # ds) = first_valid ds"
| "first_valid (Some c # ds) = (if c \<ge> 0 then Some c else first_valid ds)"

text \<open>The mapping loop of tier 3: skip null and negative ids, return the first mapped value.\<close>

fun first_mapped :: "(int \<times> int) list \<Rightarrow> detection list \<Rightarrow> int option" where
  "first_mapped tm [] = None"
| "first_mapped tm (None # ds) = first_mapped tm ds"
| "first_mapped tm (Some cid # ds) =
     (if cid < 0 then first_mapped tm ds
      else (case map_of tm cid of
              Some t \<Rightarrow> Some t
            | None \<Rightarrow> first_mapped tm ds))"

definition resolveType :: "SaveVideo \<Rightarrow> detection list \<Rightarrow> int" where
  "resolveType cfg dets =
     (case fixed_type cfg of
        Some t \<Rightarrow> t
      | None \<Rightarrow>
          if use_class_id_type cfg then
            (case first_valid dets of Some c \<Rightarrow> c | None \<Rightarrow> 0)
          else if type_map cfg \<noteq> [] then
            (case first_mapped (type_map cfg) dets of
               Some t \<Rightarrow> t
             | None \<Rightarrow> (case first_valid dets of Some c \<Rightarrow> c | None \<Rightarrow> 0))
          else
            (case first_valid dets of Some c \<Rightarrow> c | None \<Rightarrow> 0))"

text \<open>
  The four tiers in the words of the specification: a detection is valid when it is
  non-null with id \<open>\<ge> 0\<close>; it is mapped when moreover its id is a key of the mapping.
\<close>

definition valid_det :: "detection \<Rightarrow> bool" where
  "valid_det d = (case d of None \<Rightarrow> False | Some c \<Rightarrow> c \<ge> 0)"

definition mapped_det :: "(int \<times> int) list \<Rightarrow> detection \<Rightarrow> bool" where
  "mapped_det tm d = (case d of None \<Rightarrow> False | Some c \<Rightarrow> c \<ge> 0 \<and> map_of tm c \<noteq> None)"

definition raw_id_or_zero :: "detection list \<Rightarrow> int" where
  "raw_id_or_zero dets = (case List.find valid_det dets of Some (Some c) \<Rightarrow> c | _ \<Rightarrow> 0)"

definition resolveType_spec :: "SaveVideo \<Rightarrow> detection list \<Rightarrow> int" where
  "resolveType_spec cfg dets =
     (case fixed_type cfg of
        Some t \<Rightarrow> t
      | None \<Rightarrow>
          if use_class_id_type cfg then raw_id_or_zero dets
          else if type_map cfg \<noteq> [] then
            (case List.find (mapped_det (type_map cfg)) dets of
               Some (Some c) \<Rightarrow> (case map_of (type_map cfg) c of Some t \<Rightarrow> t | None \<Rightarrow> 0)
             | _ \<Rightarrow> raw_id_or_zero dets)
          else raw_id_or_zero dets)"

subsection \<open>Strings and paths\<close>

text \<open>\<^verbatim>\<open>std::to_string(int)\<close>: decimal digits, a leading minus sign for negative values.\<close>

definition digit_char :: "nat \<Rightarrow> char" where
  "digit_char d = ''0123456789'' ! d"

fun nat_to_string :: "nat \<Rightarrow> string" where
  "nat_to_string n =
     (if n < 10 then [digit_char n] else nat_to_string (n div 10) @ [digit_char (n mod 10)])"

declare nat_to_string.simps [simp del]

definition to_string :: "int \<Rightarrow> string" where
  "to_string i = (if i < 0 then CHR ''-'' # nat_to_string (nat (- i)) else nat_to_string (nat i))"

text \<open>
  \<^verbatim>\<open>fs::path::operator/\<close> followed by \<^verbatim>\<open>.string()\<close> on POSIX: an absolute right operand
  replaces the left one; otherwise a separator is inserted unless the left operand is empty
  or already ends with one.
\<close>

definition path_append :: "string \<Rightarrow> string \<Rightarrow> string" where
  "path_append a b =
     (if b \<noteq> [] \<and> hd b = CHR ''/'' then b
      else if a = [] \<or> last a = CHR ''/'' then a @ b
      else a @ ''/'' @ b)"

text \<open>The per-channel directory name \<^verbatim>\<open>"ch_" + std::to_string(ch)\<close> (lines 478, 519, 535).\<close>

definition channel_dir :: "int \<Rightarrow> string" where
  "channel_dir ch = ''ch_'' @ to_string ch"

text \<open>\<^verbatim>\<open>base\<close> of line 478: \<^verbatim>\<open>save_dir_ / ("ch_" + ch) / (timestr + "_type" + type)\<close>.\<close>

definition base_path :: "SaveVideo \<Rightarrow> int \<Rightarrow> string \<Rightarrow> int \<Rightarrow> string" where
  "base_path cfg ch ts rt =
     path_append (path_append (save_dir cfg) (channel_dir ch)) (ts @ ''_type'' @ to_string rt)"

text \<open>The per-class snapshot name of lines 519 and 535.\<close>

definition cls_img_path :: "SaveVideo \<Rightarrow> int \<Rightarrow> string \<Rightarrow> int \<Rightarrow> int \<Rightarrow> string" where
  "cls_img_path cfg ch ts cid rt =
     path_append (path_append (save_dir cfg) (channel_dir ch))
       (ts @ ''_cls'' @ to_string cid @ ''_type'' @ to_string rt @ ''.jpg'')"

subsection \<open>Endpoint parsing (\<^verbatim>\<open>SaveVideo::parseUrl\<close>)\<close>

text \<open>The C++ exceptions that \<^verbatim>\<open>std::stoi\<close> throws.\<close>

datatype cpp_exception = InvalidArgument | OutOfRange

definition is_digit :: "char \<Rightarrow> bool" where
  "is_digit c = (c \<in> set ''0123456789'')"

definition is_space :: "char \<Rightarrow> bool" where
  "is_space c = (c \<in> set [CHR '' '', CHR 0x09, CHR 0x0A, CHR 0x0B, CHR 0x0C, CHR 0x0D])"

definition digit_val :: "char \<Rightarrow> nat" where
  "digit_val c = of_char c - 48"

definition dec_value :: "string \<Rightarrow> nat" where
  "dec_value ds = foldl (\<lambda>a c. 10 * a + digit_val c) 0 ds"

text \<open>
  \<^verbatim>\<open>std::stoi\<close> in base 10: leading white space is skipped, one sign is accepted, the
  longest run of digits is converted and whatever follows is ignored.  No digit at all
  throws \<^verbatim>\<open>invalid_argument\<close>, a value outside \<^verbatim>\<open>int\<close> throws \<^verbatim>\<open>out_of_range\<close>.
\<close>

definition stoi :: "string \<Rightarrow> cpp_exception + int" where
  "stoi s =
     (let s1 = dropWhile is_space s;
          neg = (s1 \<noteq> [] \<and> hd s1 = CHR ''-'');
          s2 = (if s1 \<noteq> [] \<and> (hd s1 = CHR ''-'' \<or> hd s1 = CHR ''+'') then tl s1 else s1);
          ds = takeWhile is_digit s2;
          v = (if neg then - int (dec_value ds) else int (dec_value ds))
      in if ds = [] then Inl InvalidArgument
         else if v < - 2147483648 \<or> 2147483647 < v then Inl OutOfRange
         else Inr v)"

text \<open>
  The regular expression of \<^verbatim>\<open>parseUrl\<close> is
  \<^verbatim>\<open>(http|https)://([^/:]+)(?::(\d+))?(/.*)\<close>, matched against the whole string.
  Every piece is deterministic: the scheme is one of two literals, the host is the longest
  prefix free of \<^verbatim>\<open>/\<close> and \<^verbatim>\<open>:\<close> (any shorter choice leaves a character that neither
  \<^verbatim>\<open>:\<close> nor \<^verbatim>\<open>/\<close> can match), the port is the longest run of digits, and the path is
  the rest, which must start with \<^verbatim>\<open>/\<close>.  In ECMAScript mode \<^verbatim>\<open>.\<close> matches every
  character but the line terminators \<^verbatim>\<open>\n\<close> and \<^verbatim>\<open>\r\<close>.
\<close>

definition strip_prefix :: "string \<Rightarrow> string \<Rightarrow> string option" where
  "strip_prefix p s = (if take (length p) s = p then Some (drop (length p) s) else None)"

definition line_terminator :: "char \<Rightarrow> bool" where
  "line_terminator c = (c = CHR 0x0A \<or> c = CHR 0x0D)"

text \<open>Group 4, \<^verbatim>\<open>(/.*)\<close>, against the rest of the input.\<close>

definition match_path :: "string \<Rightarrow> bool" where
  "match_path r = (r \<noteq> [] \<and> hd r = CHR ''/'' \<and> \<not> list_ex line_terminator (tl r))"

text \<open>Groups 1: the scheme and what follows \<^verbatim>\<open>://\<close>.\<close>

definition match_scheme :: "string \<Rightarrow> (string \<times> string) option" where
  "match_scheme url =
     (case strip_prefix ''http://'' url of
        Some r \<Rightarrow> Some (''http'', r)
      | None \<Rightarrow>
          (case strip_prefix ''https://'' url of
             Some r \<Rightarrow> Some (''https'', r)
           | None \<Rightarrow> None))"

definition host_char :: "char \<Rightarrow> bool" where
  "host_char c = (c \<noteq> CHR ''/'' \<and> c \<noteq> CHR '':'')"

text \<open>
  \<open>Inr None\<close> is \<^verbatim>\<open>std::nullopt\<close>; \<open>Inl e\<close> is the exception that \<^verbatim>\<open>std::stoi\<close>
  throws on a port beyond \<^verbatim>\<open>int\<close>, which \<^verbatim>\<open>parseUrl\<close> does not catch.
\<close>

definition parseUrl :: "string \<Rightarrow> cpp_exception + ServerEndpoint option" where
  "parseUrl url =
     (case match_scheme url of
        None \<Rightarrow> Inr None
      | Some (sch, r) \<Rightarrow>
          (let h = takeWhile host_char r; r1 = dropWhile host_char r
           in if h = [] then Inr None
              else if r1 \<noteq> [] \<and> hd r1 = CHR '':'' then
                (let ds = takeWhile is_digit (tl r1); r2 = dropWhile is_digit (tl r1)
                 in if ds = [] \<or> \<not> match_path r2 then Inr None
                    else (case stoi ds of
                            Inl e \<Rightarrow> Inl e
                          | Inr p \<Rightarrow> Inr (Some \<lparr>scheme = sch, host = h, port = p, path = r2\<rparr>)))
              else if match_path r1 then
                Inr (Some \<lparr>scheme = sch, host = h,
                           port = (if sch = ''https'' then 443 else 80), path = r1\<rparr>)
              else Inr None))"

text \<open>
  The shape \<^verbatim>\<open>scheme://host[:port]/path\<close> in the words of the regular expression: the
  strings that split into the four groups.
\<close>

definition url_shape :: "string \<Rightarrow> bool" where
  "url_shape url =
     (\<exists>sch h pt p. url = sch @ ''://'' @ h @ pt @ p
        \<and> (sch = ''http'' \<or> sch = ''https'')
        \<and> h \<noteq> [] \<and> list_all host_char h
        \<and> (pt = [] \<or> (\<exists>ds. pt = CHR '':'' # ds \<and> ds \<noteq> [] \<and> list_all is_digit ds))
        \<and> match_path p)"

subsection \<open>Public URLs (\<^verbatim>\<open>SaveVideo::makeUrl\<close>)\<close>

text \<open>
  \<^verbatim>\<open>fs::relative(p, base)\<close> is
  \<^verbatim>\<open>weakly_canonical(p).lexically_relative(weakly_canonical(base))\<close>.  The first step asks
  the file system (existing prefixes, symbolic links, the current directory) and may throw;
  it is the parameter \<open>wc\<close>, with \<open>None\<close> for a throw.  The second step is purely lexical
  and is computed here as the standard library does on POSIX, where a path is absolute
  exactly when it has a root directory and no path has a root name.
\<close>

text \<open>The filenames of a path: its non-empty pieces between separators.\<close>

fun split_path :: "string \<Rightarrow> string \<Rightarrow> string list" where
  "split_path acc [] = (if acc = [] then [] else [acc])"
| "split_path acc (c # cs) =
     (if c = CHR ''/'' then (if acc = [] then split_path [] cs else acc # split_path [] cs)
      else split_path (acc @ [c]) cs)"

definition is_absolute :: "string \<Rightarrow> bool" where
  "is_absolute p = (p \<noteq> [] \<and> hd p = CHR ''/'')"

text \<open>
  The elements a path iterates over: the root directory if there is one, the filenames, and
  an empty element for a trailing separator after a filename.
\<close>

definition elements :: "string \<Rightarrow> string list" where
  "elements p =
     (if is_absolute p then [''/''] else [])
     @ split_path [] p
     @ (if p \<noteq> [] \<and> last p = CHR ''/'' \<and> split_path [] p \<noteq> [] then [[]] else [])"

text \<open>\<^verbatim>\<open>std::mismatch\<close> on the two element sequences: what is left of each.\<close>

fun drop_common :: "string list \<Rightarrow> string list \<Rightarrow> string list \<times> string list" where
  "drop_common (x # xs) (y # ys) = (if x = y then drop_common xs ys else (x # xs, y # ys))"
| "drop_common xs ys = (xs, ys)"

text \<open>
  The number \<open>n\<close> of \<^verbatim>\<open>lexically_relative\<close>: the elements left of the base that are neither
  empty nor dot nor dot-dot, minus those that are dot-dot.
\<close>

definition climb :: "string list \<Rightarrow> int" where
  "climb b =
     int (length (filter (\<lambda>e. e \<noteq> [] \<and> e \<noteq> ''.'' \<and> e \<noteq> ''..'') b))
     - int (length (filter (\<lambda>e. e = ''..'') b))"

definition lexically_relative :: "string \<Rightarrow> string \<Rightarrow> string" where
  "lexically_relative p base =
     (if is_absolute p \<noteq> is_absolute base then []
      else
        (case drop_common (elements p) (elements base) of
           (a, b) \<Rightarrow>
             if a = [] \<and> b = [] then ''.''
             else if climb b = 0 \<and> (a = [] \<or> hd a = []) then ''.''
             else if 0 \<le> climb b
               then foldl path_append (foldl path_append [] (replicate (nat (climb b)) ''..'')) a
               else []))"

definition fs_relative :: "(string \<Rightarrow> string option) \<Rightarrow> string \<Rightarrow> string \<Rightarrow> string option" where
  "fs_relative wc p base =
     (case wc p of
        None \<Rightarrow> None
      | Some p' \<Rightarrow> (case wc base of None \<Rightarrow> None | Some base' \<Rightarrow> Some (lexically_relative p' base')))"

text \<open>\<^verbatim>\<open>makeUrl\<close>; a throw of \<^verbatim>\<open>fs::relative\<close> is caught and leaves the path as it is.\<close>

definition makeUrl :: "(string \<Rightarrow> string option) \<Rightarrow> SaveVideo \<Rightarrow> string \<Rightarrow> string" where
  "makeUrl wc cfg file_abs_path =
     (if base_file_url cfg = [] then file_abs_path
      else
        (let r = (if save_dir cfg \<noteq> [] then
                    (case fs_relative wc file_abs_path (save_dir cfg) of
                       Some x \<Rightarrow> x
                     | None \<Rightarrow> file_abs_path)
                  else file_abs_path)
         in if last (base_file_url cfg) = CHR ''/'' then base_file_url cfg @ r
            else base_file_url cfg @ ''/'' @ r))"

text \<open>
  The words of the specification: a filename proper is not empty, holds no separator and is
  neither dot nor dot-dot; a path is written by joining filenames with separators.
\<close>

definition component :: "string \<Rightarrow> bool" where
  "component c = (c \<noteq> [] \<and> CHR ''/'' \<notin> set c \<and> c \<noteq> ''.'' \<and> c \<noteq> ''..'')"

fun join_path :: "string list \<Rightarrow> string" where
  "join_path [] = []"
| "join_path [x] = x"
| "join_path (x # y # ys) = x @ ''/'' @ join_path (y # ys)"

subsection \<open>Alarm posting (\<^verbatim>\<open>SaveVideo::postAlarm\<close>)\<close>

datatype json_value = JString string | JInt int

text \<open>One \<^verbatim>\<open>httplib::Client::Post\<close>: the client's host and port, the path, the JSON object.\<close>

record HttpPost =
  post_host :: string
  post_port :: int
  post_path :: string
  post_body :: "(string \<times> json_value) list"

text \<open>
  The requests \<^verbatim>\<open>postAlarm\<close> sends: none without an endpoint, else one.  The response
  and every exception are logged only.  The body lists the keys in assignment order
  (\<^verbatim>\<open>dump()\<close> sorts them).
\<close>

definition postAlarm ::
  "(string \<Rightarrow> string option) \<Rightarrow> SaveVideo \<Rightarrow> int \<Rightarrow> string \<Rightarrow> string \<Rightarrow> string \<Rightarrow> int
     \<Rightarrow> HttpPost list" where
  "postAlarm wc cfg channel imgPath videoPath dt resolved_type =
     (case endpoint cfg of
        None \<Rightarrow> []
      | Some ep \<Rightarrow>
          [\<lparr>post_host = host ep, post_port = port ep, post_path = path ep,
            post_body =
              [(''deviceId'', JString (device_id cfg)),
               (''deviceIp'', JString (device_ip cfg)),
               (''safetyId'', JString (safety_id cfg)),
               (''safetyName'', JString (safety_name cfg)),
               (''warning'', JString (warning cfg)),
               (''type'', JInt resolved_type)]
              @ (if video_url_field cfg = ''safetyUrl''
                 then [(''safetyUrl'', JString (makeUrl wc cfg videoPath)),
                       (''brakeUrl'', JString [])]
                 else [(''brakeUrl'', JString (makeUrl wc cfg videoPath)),
                       (''safetyUrl'', JString [])])
              @ [(''datatime'', JString dt),
                 (''imgUrl'', JString (makeUrl wc cfg imgPath))]\<rparr>])"

subsection \<open>Configuration (\<^verbatim>\<open>SaveVideo::initInternal\<close>)\<close>

text \<open>
  The configuration object after JSON parsing and after unwrapping a nested
  \<^verbatim>\<open>"configure"\<close> object.  A key read with \<^verbatim>\<open>get<T>()\<close> is an optional value of type
  \<open>T\<close> (\<open>None\<close>: the key is absent); the three keys whose JSON type the code inspects carry
  a datatype.  An object is the list of its members in iteration order (sorted by key),
  a member's value being \<open>Some v\<close> when it is an integer.
\<close>

datatype trigger_classes_json = TcArray "int option list" | TcOther

datatype min_trigger_frames_json = MtfInt int | MtfObject "(string \<times> int option) list" | MtfOther

datatype type_json = TypeInt int | TypeObject "(string \<times> int option) list" | TypeString string | TypeOther

record Configure =
  c_server_url :: "string option"
  c_save_dir :: "string option"
  c_base_file_url :: "string option"
  c_record_seconds :: "int option"
  c_trigger_classes :: "trigger_classes_json option"
  c_min_trigger_frames :: "min_trigger_frames_json option"
  c_retention_days :: "int option"
  c_retention_max_gb :: "real option"
  c_cleanup_interval_seconds :: "int option"
  c_deviceId :: "string option"
  c_deviceIp :: "string option"
  c_safetyId :: "string option"
  c_safetyName :: "string option"
  c_warning :: "string option"
  c_type :: "type_json option"
  c_video_url_field :: "string option"

datatype init_error = PARSE_CONFIGURE_FAIL | Threw cpp_exception

text \<open>\<^verbatim>\<open>if (cfg.contains(K)) member = cfg[K].get<T>();\<close>\<close>

definition or_keep :: "'a option \<Rightarrow> 'a \<Rightarrow> 'a" where
  "or_keep v old = (case v of None \<Rightarrow> old | Some x \<Rightarrow> x)"

text \<open>
  The loops over the members of an object: keys that \<^verbatim>\<open>std::stoi\<close> rejects and values that
  are not integers are skipped.
\<close>

fun load_thresholds :: "(string \<times> int option) list \<Rightarrow> (int \<rightharpoonup> int) \<Rightarrow> (int \<rightharpoonup> int)" where
  "load_thresholds [] m = m"
| "load_thresholds ((k, v) # kvs) m =
     (case stoi k of
        Inl e \<Rightarrow> load_thresholds kvs m
      | Inr cid \<Rightarrow>
          (case v of
             None \<Rightarrow> load_thresholds kvs m
           | Some n \<Rightarrow> load_thresholds kvs (m(cid \<mapsto> max 1 n))))"

fun load_type_map :: "(string \<times> int option) list \<Rightarrow> (int \<times> int) list \<Rightarrow> (int \<times> int) list" where
  "load_type_map [] m = m"
| "load_type_map ((k, v) # kvs) m =
     (case stoi k of
        Inl e \<Rightarrow> load_type_map kvs m
      | Inr cid \<Rightarrow>
          (case v of
             None \<Rightarrow> load_type_map kvs m
           | Some n \<Rightarrow> load_type_map kvs (AList.update cid n m)))"

definition init_trigger_classes :: "trigger_classes_json option \<Rightarrow> SaveVideo \<Rightarrow> SaveVideo" where
  "init_trigger_classes tc s =
     (case tc of
        None \<Rightarrow> s
      | Some TcOther \<Rightarrow> s\<lparr>trigger_classes := {}\<rparr>
      | Some (TcArray items) \<Rightarrow> s\<lparr>trigger_classes := set (List.map_filter (\<lambda>x. x) items)\<rparr>)"

definition init_min_trigger_frames :: "min_trigger_frames_json option \<Rightarrow> SaveVideo \<Rightarrow> SaveVideo" where
  "init_min_trigger_frames mtf s =
     (case mtf of
        Some (MtfInt n) \<Rightarrow>
          s\<lparr>per_class_min_trigger_frames := Map.empty, global_min_trigger_frames := max 1 n\<rparr>
      | Some (MtfObject kvs) \<Rightarrow>
          s\<lparr>per_class_min_trigger_frames := load_thresholds kvs Map.empty\<rparr>
      | _ \<Rightarrow> s\<lparr>per_class_min_trigger_frames := Map.empty\<rparr>)"

definition init_type :: "type_json option \<Rightarrow> SaveVideo \<Rightarrow> SaveVideo" where
  "init_type tv s =
     (case tv of
        Some (TypeInt n) \<Rightarrow> s\<lparr>fixed_type := Some n, use_class_id_type := False, type_map := []\<rparr>
      | Some (TypeObject kvs) \<Rightarrow>
          s\<lparr>fixed_type := None, use_class_id_type := False, type_map := load_type_map kvs []\<rparr>
      | Some (TypeString str) \<Rightarrow>
          if str = ''class_id'' \<or> str = ''classid'' \<or> str = ''label''
          then s\<lparr>fixed_type := None, type_map := [], use_class_id_type := True\<rparr>
          else s
      | _ \<Rightarrow> s)"

definition init_video_url_field :: "string option \<Rightarrow> SaveVideo \<Rightarrow> SaveVideo" where
  "init_video_url_field v s =
     (case v of
        None \<Rightarrow> s
      | Some f \<Rightarrow>
          s\<lparr>video_url_field := (if f \<noteq> ''safetyUrl'' \<and> f \<noteq> ''brakeUrl'' then ''safetyUrl'' else f)\<rparr>)"

text \<open>
  \<^verbatim>\<open>initInternal\<close> on the members \<open>s\<close>; the argument is \<open>None\<close> when the text is not a JSON
  object.  The only error return after that is a missing \<^verbatim>\<open>save_dir\<close>; an exception of
  \<^verbatim>\<open>parseUrl\<close> leaves the function.  The cleanup thread is the flag \<open>cleanup_running\<close>.
\<close>

definition initInternal :: "Configure option \<Rightarrow> SaveVideo \<Rightarrow> init_error + SaveVideo" where
  "initInternal json s =
     (case json of
        None \<Rightarrow> Inl PARSE_CONFIGURE_FAIL
      | Some cfg \<Rightarrow>
          (let url = or_keep (c_server_url cfg) (server_url s)
           in case parseUrl url of
                Inl e \<Rightarrow> Inl (Threw e)
              | Inr ep \<Rightarrow>
                  (case c_save_dir cfg of
                     None \<Rightarrow> Inl PARSE_CONFIGURE_FAIL
                   | Some dir \<Rightarrow>
                       (let s1 = s\<lparr>server_url := url, endpoint := ep, save_dir := dir,
                                   base_file_url := or_keep (c_base_file_url cfg) (base_file_url s),
                                   record_seconds :=
                                     or_keep (map_option (max 1) (c_record_seconds cfg)) (record_seconds s)\<rparr>;
                            s2 = init_trigger_classes (c_trigger_classes cfg) s1;
                            s3 = init_min_trigger_frames (c_min_trigger_frames cfg) s2;
                            s4 = s3\<lparr>retention_days :=
                                     or_keep (map_option (max 0) (c_retention_days cfg)) (retention_days s3),
                                   retention_max_gb :=
                                     or_keep (map_option (max 0) (c_retention_max_gb cfg)) (retention_max_gb s3),
                                   cleanup_interval_seconds :=
                                     or_keep (map_option (max 30) (c_cleanup_interval_seconds cfg))
                                       (cleanup_interval_seconds s3),
                                   device_id := or_keep (c_deviceId cfg) (device_id s3),
                                   device_ip := or_keep (c_deviceIp cfg) (device_ip s3),
                                   safety_id := or_keep (c_safetyId cfg) (safety_id s3),
                                   safety_name := or_keep (c_safetyName cfg) (safety_name s3),
                                   warning := or_keep (c_warning cfg) (warning s3)\<rparr>;
                            s5 = init_type (c_type cfg) s4;
                            s6 = init_video_url_field (c_video_url_field cfg) s5
                        in Inr (if (retention_days s6 > 0 \<or> retention_max_gb s6 > 0) \<and> save_dir s6 \<noteq> []
                                then s6\<lparr>cleanup_running := True\<rparr> else s6)))))"

subsection \<open>Frames, the outside world and observable effects\<close>

text \<open>
  \<^verbatim>\<open>common::Frame\<close> as far as the element reads it.  An image handle is \<open>None\<close> when it
  is null (\<^verbatim>\<open>mMat\<close>: when it is empty), else the size \<open>(cols, rows)\<close> of the image.
\<close>

record Frame =
  mChannelIdInternal :: int
  mEndOfStream :: bool
  mWidth :: int
  mHeight :: int
  mFrameRate_mNumber :: int
  mFrameRate_mDenominator :: int
  mSpDataOsd :: "(int \<times> int) option"
  mSpData :: "(int \<times> int) option"
  mMat :: "(int \<times> int) option"

record ObjectMetadata =
  mFrame :: "Frame option"
  mDetectedObjectMetadatas :: "detection list"
  mFilter :: bool

datatype open_result = Opened | OpenFailed | OpenThrew

text \<open>
  What one call of \<^verbatim>\<open>doWork\<close> reads from outside the element: the steady clock at line
  389 (\<open>now_tp\<close>) and inside \<^verbatim>\<open>startRecording\<close> (\<open>start_now\<close>), in nanosecond ticks; the
  two \<^verbatim>\<open>strftime\<close> renderings of the local time read at line 460; whether
  \<^verbatim>\<open>create_directories\<close> throws in \<^verbatim>\<open>startRecording\<close>; how \<^verbatim>\<open>VideoWriter::open\<close> ends;
  and the order in which the \<^verbatim>\<open>unordered_set\<close> \<^verbatim>\<open>frame_class_ids\<close> is iterated, which
  the standard leaves open.
\<close>

record Env =
  now_tp :: int
  start_now :: int
  timestr :: string
  dtstr :: string
  mkdir_throws :: bool
  writer_open :: open_result
  iter_order :: "int list \<Rightarrow> int list"

text \<open>An iteration visits every element of the set once.\<close>

definition iter_order_ok :: "(int list \<Rightarrow> int list) \<Rightarrow> bool" where
  "iter_order_ok f = (\<forall>xs. distinct xs \<longrightarrow> distinct (f xs) \<and> set (f xs) = set xs)"

text \<open>
  The calls the element makes on its collaborators, in program order:
  \<^verbatim>\<open>VideoWriter::open(path, fourcc, fps, Size(w, h))\<close>, \<^verbatim>\<open>VideoWriter::write\<close> of an image
  of the given size, \<^verbatim>\<open>VideoWriter::release\<close>, \<^verbatim>\<open>saveSnapshot(frame, path)\<close>,
  \<^verbatim>\<open>postAlarm(channel, imgPath, videoPath, datetime, type)\<close>, \<^verbatim>\<open>std::filesystem::remove\<close>
  and \<^verbatim>\<open>pushOutputData\<close> of the object with the given \<^verbatim>\<open>mFilter\<close>.
\<close>

datatype effect =
    WriterOpen string int int int
  | WriterWrite int int
  | WriterRelease
  | SaveSnapshot string
  | PostAlarm int string string string int
  | RemoveFile string
  | PushOutput bool

subsection \<open>Recording helpers\<close>

text \<open>C++ integer division truncates towards zero.\<close>

definition cdiv :: "int \<Rightarrow> int \<Rightarrow> int" where
  "cdiv a b = sgn a * sgn b * (\<bar>a\<bar> div \<bar>b\<bar>)"

text \<open>\<^verbatim>\<open>std::chrono::seconds(n)\<close> in ticks of the steady clock.\<close>

definition seconds :: "int \<Rightarrow> int" where
  "seconds n = n * 1000000000"

text \<open>
  \<^verbatim>\<open>startRecording\<close>: the returned flag, the channel state and the calls made.  A throw of
  \<^verbatim>\<open>create_directories\<close> or of \<^verbatim>\<open>open\<close> is caught and yields \<^verbatim>\<open>false\<close>; after a throw
  of \<^verbatim>\<open>open\<close> the writer object stays allocated.
\<close>

definition startRecording ::
  "SaveVideo \<Rightarrow> Env \<Rightarrow> ChannelState \<Rightarrow> Frame \<Rightarrow> string \<Rightarrow> bool \<times> ChannelState \<times> effect list" where
  "startRecording cfg env st frame filepath =
     (if mkdir_throws env then (False, st, [])
      else
        (let fps' = (if fps st > 0 then fps st
                     else if mFrameRate_mDenominator frame \<noteq> 0
                       then max 1 (cdiv (mFrameRate_mNumber frame) (max 1 (mFrameRate_mDenominator frame)))
                       else 25);
             w = mWidth frame;
             h = mHeight frame
         in if w \<le> 0 \<or> h \<le> 0 then (False, st, [])
            else
              (let st1 = st\<lparr>width := w, height := h, fps := fps', writer := True\<rparr>;
                   call = [WriterOpen filepath fps' w h]
               in case writer_open env of
                    OpenThrew \<Rightarrow> (False, st1, call)
                  | OpenFailed \<Rightarrow> (False, st1\<lparr>writer := False\<rparr>, call)
                  | Opened \<Rightarrow>
                      (True,
                       st1\<lparr>recording := True,
                           record_end_tp := start_now env + seconds (record_seconds cfg)\<rparr>,
                       call))))"

text \<open>The one path through \<^verbatim>\<open>startRecording\<close> that returns \<^verbatim>\<open>true\<close>.\<close>

definition open_succeeds :: "Env \<Rightarrow> Frame \<Rightarrow> bool" where
  "open_succeeds env frame =
     (\<not> mkdir_throws env \<and> 0 < mWidth frame \<and> 0 < mHeight frame \<and> writer_open env = Opened)"

text \<open>The image \<^verbatim>\<open>appendFrame\<close> and \<^verbatim>\<open>saveSnapshot\<close> pick: OSD first, then raw, then the matrix.\<close>

definition frame_image :: "Frame \<Rightarrow> (int \<times> int) option" where
  "frame_image f =
     (case mSpDataOsd f of
        Some i \<Rightarrow> Some i
      | None \<Rightarrow> (case mSpData f of Some i \<Rightarrow> Some i | None \<Rightarrow> mMat f))"

text \<open>
  \<^verbatim>\<open>appendFrame\<close>: an image of another size is resized to the session's, so what is written
  always has the session's size.
\<close>

definition appendFrame :: "ChannelState \<Rightarrow> Frame \<Rightarrow> effect list" where
  "appendFrame st frame =
     (if \<not> recording st \<or> \<not> writer st then []
      else (case frame_image frame of
              None \<Rightarrow> []
            | Some img \<Rightarrow> [WriterWrite (width st) (height st)]))"

definition stopRecording :: "ChannelState \<Rightarrow> ChannelState \<times> effect list" where
  "stopRecording st =
     (st\<lparr>writer := False, recording := False\<rparr>, if writer st then [WriterRelease] else [])"

subsection \<open>The trigger engine (\<^verbatim>\<open>doWork\<close>, lines 375--445)\<close>

definition hasTarget :: "SaveVideo \<Rightarrow> detection list \<Rightarrow> bool" where
  "hasTarget cfg dets =
     (if trigger_classes cfg \<noteq> {}
      then list_ex (\<lambda>d. case d of None \<Rightarrow> False | Some c \<Rightarrow> c \<in> trigger_classes cfg) dets
      else dets \<noteq> [])"

text \<open>
  \<^verbatim>\<open>trigger_classes_.empty() || trigger_classes_.count(cid)\<close> (lines 404 and 426): the
  classes the engine tracks.
\<close>

definition tracked :: "int set \<Rightarrow> int \<Rightarrow> bool" where
  "tracked T cid = (T = {} \<or> cid \<in> T)"

text \<open>Lines 397--407: the set of class ids of the frame, in insertion order.\<close>

fun frame_class_ids :: "int set \<Rightarrow> detection list \<Rightarrow> int list \<Rightarrow> int list" where
  "frame_class_ids T [] acc = acc"
| "frame_class_ids T (None # ds) acc = frame_class_ids T ds acc"
| "frame_class_ids T (Some cid # ds) acc =
     (if cid < 0 then frame_class_ids T ds acc
      else if tracked T cid
        then frame_class_ids T ds (if cid \<in> set acc then acc else acc @ [cid])
        else frame_class_ids T ds acc)"

text \<open>\<^verbatim>\<open>operator[]\<close> of the counter map reads a missing key as a fresh zero.\<close>

definition count_of :: "(int \<rightharpoonup> int) \<Rightarrow> int \<Rightarrow> int" where
  "count_of m cid = (case m cid of None \<Rightarrow> 0 | Some v \<Rightarrow> v)"

definition need_of :: "SaveVideo \<Rightarrow> int \<Rightarrow> int" where
  "need_of cfg cid =
     (case per_class_min_trigger_frames cfg cid of
        Some t \<Rightarrow> t
      | None \<Rightarrow> global_min_trigger_frames cfg)"

text \<open>Lines 408--419: count every class of the frame and collect those that newly fire.\<close>

fun count_loop ::
  "SaveVideo \<Rightarrow> int set \<Rightarrow> int list \<Rightarrow> (int \<rightharpoonup> int) \<Rightarrow> int list \<Rightarrow> (int \<rightharpoonup> int) \<times> int list" where
  "count_loop cfg supp [] m newly = (m, newly)"
| "count_loop cfg supp (cid # cids) m newly =
     (let prev = count_of m cid;
          cnt = prev + 1;
          need = need_of cfg cid
      in count_loop cfg supp cids (m(cid \<mapsto> cnt))
           (if cnt \<ge> need \<and> prev < need \<and> cid \<notin> supp then newly @ [cid] else newly))"

text \<open>
  Lines 421--435: every existing counter of a tracked class that is not in the frame's set
  goes to zero.  (The test for an empty map only skips a loop that would do nothing.)
\<close>

definition reset_absent :: "int set \<Rightarrow> int list \<Rightarrow> (int \<rightharpoonup> int) \<Rightarrow> (int \<rightharpoonup> int)" where
  "reset_absent T ids m =
     (\<lambda>k. case m k of
             None \<Rightarrow> None
           | Some v \<Rightarrow> if tracked T k \<and> k \<notin> set ids then Some 0 else Some v)"

text \<open>Lines 437--444: no target in the frame.\<close>

definition clear_counts :: "int set \<Rightarrow> (int \<rightharpoonup> int) \<Rightarrow> (int \<rightharpoonup> int)" where
  "clear_counts T m = (if T \<noteq> {} then (\<lambda>k. if k \<in> T then Some 0 else m k) else Map.empty)"

definition count_phase ::
  "SaveVideo \<Rightarrow> Env \<Rightarrow> detection list \<Rightarrow> ChannelState \<Rightarrow> ChannelState \<times> int list" where
  "count_phase cfg env dets st =
     (if hasTarget cfg dets then
        (let ids = frame_class_ids (trigger_classes cfg) dets [];
             r = count_loop cfg (suppressed_classes st) (iter_order env ids)
                   (per_class_consecutive_frames st) []
         in (st\<lparr>per_class_consecutive_frames := reset_absent (trigger_classes cfg) ids (fst r)\<rparr>,
             snd r))
      else
        (st\<lparr>per_class_consecutive_frames :=
               clear_counts (trigger_classes cfg) (per_class_consecutive_frames st)\<rparr>, []))"

subsection \<open>The recording session (\<^verbatim>\<open>doWork\<close>, lines 446--586)\<close>

text \<open>
  The two loops over \<^verbatim>\<open>classes_to_add\<close> (lines 513--527 and 532--542): a snapshot, a
  pending event and a suppression per class.  \<open>img idx cid\<close> is the snapshot's path.
\<close>

fun snapshot_loop ::
  "(nat \<Rightarrow> int \<Rightarrow> string) \<Rightarrow> string \<Rightarrow> int \<Rightarrow> nat \<Rightarrow> int list \<Rightarrow> ChannelState
     \<Rightarrow> ChannelState \<times> effect list" where
  "snapshot_loop img dt rt idx [] st = (st, [])"
| "snapshot_loop img dt rt idx (cid # cids) st =
     (let imgPath = img idx cid;
          ev = \<lparr>class_id = cid, alarm_type = rt, img_path = imgPath, datetime_str = dt\<rparr>;
          r = snapshot_loop img dt rt (Suc idx) cids
                (st\<lparr>pending_events := pending_events st @ [ev],
                    suppressed_classes := insert cid (suppressed_classes st)\<rparr>)
      in (fst r, SaveSnapshot imgPath # snd r))"

text \<open>Lines 479--483.\<close>

definition classes_to_add :: "ChannelState \<Rightarrow> int list \<Rightarrow> int list" where
  "classes_to_add st newly = filter (\<lambda>cid. \<not> (cid \<ge> 0 \<and> cid \<in> suppressed_classes st)) newly"

definition session_phase ::
  "SaveVideo \<Rightarrow> Env \<Rightarrow> int \<Rightarrow> Frame \<Rightarrow> detection list \<Rightarrow> int list \<Rightarrow> ChannelState
     \<Rightarrow> ChannelState \<times> effect list" where
  "session_phase cfg env ch frame dets newly st =
     (if newly = [] then (st, [])
      else
        (let rt = resolveType cfg dets;
             base = base_path cfg ch (timestr env) rt;
             cta = classes_to_add st newly
         in if \<not> recording st then
              (let vidPath = base @ ''.mp4'';
                   r = startRecording cfg env st frame vidPath;
                   st1 = (fst (snd r))\<lparr>pending_video_path := vidPath, pending_events := [],
                                        suppressed_classes := {}\<rparr>
               in if \<not> fst r then
                    (st1,
                     snd (snd r) @ [SaveSnapshot (base @ ''.jpg'')]
                       @ map (\<lambda>cid. PostAlarm ch (base @ ''.jpg'') [] (dtstr env) rt) cta)
                  else
                    (let r2 = snapshot_loop
                                (\<lambda>idx cid. if idx = 0 then base @ ''.jpg''
                                            else cls_img_path cfg ch (timestr env) cid rt)
                                (dtstr env) rt 0 cta st1
                     in (fst r2, snd (snd r) @ snd r2)))
            else
              snapshot_loop (\<lambda>idx cid. cls_img_path cfg ch (timestr env) cid rt)
                (dtstr env) rt 0 cta st))"

text \<open>Lines 549--586: append the frame and, once the deadline has passed, finalize.\<close>

definition finalize_phase :: "Env \<Rightarrow> int \<Rightarrow> Frame \<Rightarrow> ChannelState \<Rightarrow> ChannelState \<times> effect list" where
  "finalize_phase env ch frame st =
     (if recording st then
        (let e1 = appendFrame st frame
         in if now_tp env \<ge> record_end_tp st then
              (let r = stopRecording st;
                   st1 = fst r;
                   e2 = (if pending_events st1 = [] then
                           (if pending_video_path st1 \<noteq> [] then [RemoveFile (pending_video_path st1)]
                            else [])
                         else
                           map (\<lambda>ev. PostAlarm ch (img_path ev) (pending_video_path st1)
                                       (datetime_str ev) (alarm_type ev))
                             (pending_events st1))
               in (st1\<lparr>pending_events := [], suppressed_classes := {}\<rparr>, e1 @ snd r @ e2))
            else (st, e1))
      else (st, []))"

text \<open>
  The body of \<^verbatim>\<open>doWork\<close> for a frame that is not end-of-stream, on the state of the frame's
  channel.  Besides the new state and the calls made it returns the local
  \<^verbatim>\<open>newly_reached_classes\<close>.
\<close>

definition doWork_frame ::
  "SaveVideo \<Rightarrow> Env \<Rightarrow> int \<Rightarrow> Frame \<Rightarrow> detection list \<Rightarrow> ChannelState
     \<Rightarrow> ChannelState \<times> int list \<times> effect list" where
  "doWork_frame cfg env ch frame dets st =
     (let c = count_phase cfg env dets st;
          s = session_phase cfg env ch frame dets (snd c) (fst c);
          f = finalize_phase env ch frame (fst s)
      in (fst f, snd c, snd s @ snd f))"

text \<open>
  \<^verbatim>\<open>doWork\<close> on the object popped from the input (\<open>None\<close>: the thread stopped before one
  arrived).  \<^verbatim>\<open>channels_[ch]\<close> creates the state of a channel seen for the first time.
\<close>

definition doWork ::
  "SaveVideo \<Rightarrow> Env \<Rightarrow> ObjectMetadata option \<Rightarrow> (int \<rightharpoonup> ChannelState)
     \<Rightarrow> (int \<rightharpoonup> ChannelState) \<times> effect list" where
  "doWork cfg env data channels =
     (case data of
        None \<Rightarrow> (channels, [])
      | Some obj \<Rightarrow>
          (case mFrame obj of
             None \<Rightarrow> (channels, [PushOutput (mFilter obj)])
           | Some frame \<Rightarrow>
               if mEndOfStream frame then (channels, [PushOutput True])
               else
                 (let ch = mChannelIdInternal frame;
                      st = (case channels ch of None \<Rightarrow> ChannelState_init | Some x \<Rightarrow> x);
                      r = doWork_frame cfg env ch frame (mDetectedObjectMetadatas obj) st
                  in (channels(ch \<mapsto> fst r), snd (snd r) @ [PushOutput False]))))"

text \<open>The element run on a sequence of inputs, from a given channel map.\<close>

fun run ::
  "SaveVideo \<Rightarrow> (Env \<times> ObjectMetadata option) list \<Rightarrow> (int \<rightharpoonup> ChannelState)
     \<Rightarrow> (int \<rightharpoonup> ChannelState)" where
  "run cfg [] channels = channels"
| "run cfg ((env, data) # rest) channels = run cfg rest (fst (doWork cfg env data channels))"

text \<open>One channel fed a sequence of frames: the classes that newly fire at each frame.\<close>

fun fired_trace ::
  "SaveVideo \<Rightarrow> int \<Rightarrow> (Env \<times> Frame \<times> detection list) list \<Rightarrow> ChannelState \<Rightarrow> int list list" where
  "fired_trace cfg ch [] st = []"
| "fired_trace cfg ch ((env, frame, dets) # rest) st =
     (let r = doWork_frame cfg env ch frame dets st
      in fst (snd r) # fired_trace cfg ch rest (fst r))"

text \<open>One channel fed a sequence of frames: its final state.\<close>

fun run_channel ::
  "SaveVideo \<Rightarrow> int \<Rightarrow> (Env \<times> Frame \<times> detection list) list \<Rightarrow> ChannelState \<Rightarrow> ChannelState" where
  "run_channel cfg ch [] st = st"
| "run_channel cfg ch ((env, frame, dets) # rest) st =
     run_channel cfg ch rest (fst (doWork_frame cfg env ch frame dets st))"

text \<open>The paths handed to \<^verbatim>\<open>saveSnapshot\<close> and to \<^verbatim>\<open>std::filesystem::remove\<close> in a list of calls.\<close>

fun snapshots :: "effect list \<Rightarrow> string list" where
  "snapshots [] = []"
| "snapshots (SaveSnapshot p # es) = p # snapshots es"
| "snapshots (e # es) = snapshots es"

fun removed_files :: "effect list \<Rightarrow> string list" where
  "removed_files [] = []"
| "removed_files (RemoveFile p # es) = p # removed_files es"
| "removed_files (e # es) = removed_files es"

text \<open>The session invariant: the pending events name distinct, suppressed classes.\<close>

definition session_inv :: "ChannelState \<Rightarrow> bool" where
  "session_inv st =
     (distinct (map class_id (pending_events st))
      \<and> set (map class_id (pending_events st)) \<subseteq> suppressed_classes st
      \<and> (recording st \<longrightarrow> pending_video_path st \<noteq> []))"

text \<open>The invariant on every channel the element has seen.\<close>

definition channels_inv :: "(int \<rightharpoonup> ChannelState) \<Rightarrow> bool" where
  "channels_inv channels = (\<forall>ch st. channels ch = Some st \<longrightarrow> session_inv st)"

subsection \<open>The quota pass of the retention housekeeper (\<^verbatim>\<open>cleanupLoop\<close>, lines 687--719)\<close>

text \<open>
  One entry of the recursive directory walk with what the file system answers about it
  during the scan: \<open>None\<close> is an error code.  Sizes and the running total are
  \<^verbatim>\<open>uintmax_t\<close>, 64 bits.
\<close>

record DirEntry =
  entry_path :: string
  is_regular_file :: bool
  file_size :: "64 word option"
  last_write_time :: "int option"

text \<open>\<^verbatim>\<open>fs::path::filename\<close> and \<^verbatim>\<open>fs::path::extension\<close> (a leading period starts no extension).\<close>

definition filename :: "string \<Rightarrow> string" where
  "filename p = rev (takeWhile (\<lambda>c. c \<noteq> CHR ''/'') (rev p))"

definition extension :: "string \<Rightarrow> string" where
  "extension p =
     (let f = filename p;
          e = CHR ''.'' # rev (takeWhile (\<lambda>c. c \<noteq> CHR ''.'') (rev f))
      in if f = ''.'' \<or> f = ''..'' \<or> CHR ''.'' \<notin> set f \<or> length e = length f then [] else e)"

definition media_file :: "DirEntry \<Rightarrow> bool" where
  "media_file e =
     (is_regular_file e
      \<and> (extension (entry_path e) = ''.mp4'' \<or> extension (entry_path e) = ''.jpg''
           \<or> extension (entry_path e) = ''.jpeg''))"

text \<open>
  Lines 690--702.  A file whose size cannot be read is skipped; one whose time cannot be
  read is counted in the total but not listed.
\<close>

fun scan_files ::
  "DirEntry list \<Rightarrow> 64 word \<Rightarrow> (string \<times> int) list \<Rightarrow> 64 word \<times> (string \<times> int) list" where
  "scan_files [] total_bytes files = (total_bytes, files)"
| "scan_files (e # es) total_bytes files =
     (if \<not> media_file e then scan_files es total_bytes files
      else (case file_size e of
              None \<Rightarrow> scan_files es total_bytes files
            | Some sz \<Rightarrow>
                (case last_write_time e of
                   None \<Rightarrow> scan_files es (total_bytes + sz) files
                 | Some ft \<Rightarrow> scan_files es (total_bytes + sz) (files @ [(entry_path e, ft)]))))"

text \<open>The number of binary digits of a natural number.\<close>

fun bit_length :: "nat \<Rightarrow> nat" where
  "bit_length n = (if n = 0 then 0 else Suc (bit_length (n div 2)))"

declare bit_length.simps [simp del]

text \<open>
  \<^verbatim>\<open>(double)total_bytes\<close>: a 64-bit unsigned value converted to binary64, which keeps 53
  significant bits.  Values below \<open>2^53\<close> are exact; a larger one loses its \<open>e\<close> low bits,
  rounded to nearest, ties to the even significand.
\<close>

definition to_double :: "nat \<Rightarrow> real" where
  "to_double n =
     (if n < 2 ^ 53 then real n
      else
        (let e = bit_length n - 53;
             q = n div 2 ^ e;
             r = n mod 2 ^ e;
             h = 2 ^ (e - 1)
         in real ((if h < r \<or> (r = h \<and> odd q) then q + 1 else q) * 2 ^ e)))"

text \<open>
  \<^verbatim>\<open>(double)total_bytes / (1024.0 * 1024.0 * 1024.0)\<close>.  The division of a binary64 value
  of this size by a power of two is exact.
\<close>

definition to_gb :: "64 word \<Rightarrow> real" where
  "to_gb total_bytes = to_double (unat total_bytes) / (1024 * 1024 * 1024)"

text \<open>
  Lines 710--714, one file of the deletion loop.  \<open>size_now p\<close> is what
  \<^verbatim>\<open>fs::file_size(p, ec)\<close> returns at deletion time (\<open>- 1\<close>, the largest value, on an error)
  and \<open>remove_fails p\<close> whether \<^verbatim>\<open>fs::remove(p, ec)\<close> leaves an error code.  The result is
  the running total after the file.
\<close>

definition decrement_total ::
  "(string \<Rightarrow> 64 word) \<Rightarrow> (string \<Rightarrow> bool) \<Rightarrow> 64 word \<Rightarrow> string \<Rightarrow> 64 word" where
  "decrement_total size_now remove_fails total_bytes p =
     (let sz = size_now p
      in if \<not> remove_fails p \<and> sz > 0
         then (if sz > total_bytes then 0 else total_bytes - sz)
         else total_bytes)"

text \<open>
  Lines 709--717.  The result is the final total and the paths \<^verbatim>\<open>fs::remove\<close> was called
  on, in call order.
\<close>

fun delete_loop ::
  "real \<Rightarrow> (string \<Rightarrow> 64 word) \<Rightarrow> (string \<Rightarrow> bool) \<Rightarrow> 64 word \<Rightarrow> (string \<times> int) list
     \<Rightarrow> 64 word \<times> string list" where
  "delete_loop q size_now remove_fails total_bytes [] = (total_bytes, [])"
| "delete_loop q size_now remove_fails total_bytes (f # fs) =
     (let total_bytes' = decrement_total size_now remove_fails total_bytes (fst f)
      in if to_gb total_bytes' \<le> q then (total_bytes', [fst f])
         else (let r = delete_loop q size_now remove_fails total_bytes' fs
               in (fst r, fst f # snd r)))"

text \<open>
  The comparison handed to \<^verbatim>\<open>std::sort\<close> (lines 705--707):
  \<^verbatim>\<open>a.second < b.second\<close>, older first.
\<close>

definition older :: "string \<times> int \<Rightarrow> string \<times> int \<Rightarrow> bool" where
  "older a b = (snd a < snd b)"

text \<open>
  \<^verbatim>\<open>std::sort\<close> puts the elements in an order in which none is less than an earlier one,
  and is free in how it orders elements of which neither is less than the other.  Every
  such outcome is the insertion sort of some arrangement of the input; \<open>tie\<close> is that
  arrangement.
\<close>

fun insert_by :: "('a \<Rightarrow> 'a \<Rightarrow> bool) \<Rightarrow> 'a \<Rightarrow> 'a list \<Rightarrow> 'a list" where
  "insert_by lt x [] = [x]"
| "insert_by lt x (y # ys) = (if lt y x then y # insert_by lt x ys else x # y # ys)"

fun sort_by :: "('a \<Rightarrow> 'a \<Rightarrow> bool) \<Rightarrow> 'a list \<Rightarrow> 'a list" where
  "sort_by lt [] = []"
| "sort_by lt (x # xs) = insert_by lt x (sort_by lt xs)"

definition std_sort :: "('a list \<Rightarrow> 'a list) \<Rightarrow> ('a \<Rightarrow> 'a \<Rightarrow> bool) \<Rightarrow> 'a list \<Rightarrow> 'a list" where
  "std_sort tie lt xs = sort_by lt (tie xs)"

text \<open>An arrangement keeps the elements and how often each occurs.\<close>

definition rearranges :: "((string \<times> int) list \<Rightarrow> (string \<times> int) list) \<Rightarrow> bool" where
  "rearranges tie = (\<forall>fs. mset (tie fs) = mset fs)"

text \<open>
  One quota pass.  \<open>entries\<close> is \<open>None\<close> when the directory walk throws, which ends the
  pass.
\<close>

definition quota_pass ::
  "((string \<times> int) list \<Rightarrow> (string \<times> int) list) \<Rightarrow> SaveVideo \<Rightarrow> (string \<Rightarrow> 64 word)
     \<Rightarrow> (string \<Rightarrow> bool) \<Rightarrow> DirEntry list option \<Rightarrow> 64 word \<times> string list" where
  "quota_pass tie cfg size_now remove_fails entries =
     (if retention_max_gb cfg > 0 then
        (case entries of
           None \<Rightarrow> (0, [])
         | Some es \<Rightarrow>
             (let sc = scan_files es 0 []
              in if to_gb (fst sc) > retention_max_gb cfg
                 then delete_loop (retention_max_gb cfg) size_now remove_fails (fst sc)
                        (std_sort tie older (snd sc))
                 else (fst sc, [])))
      else (0, []))"

text \<open>
  The files of a scan whose sizes make up the scanned total, and those among them that
  become candidates for deletion.
\<close>

definition counted_paths :: "DirEntry list \<Rightarrow> string list" where
  "counted_paths es = map entry_path (filter (\<lambda>e. media_file e \<and> file_size e \<noteq> None) es)"

definition candidates :: "DirEntry list \<Rightarrow> (string \<times> int) list" where
  "candidates es =
     List.map_filter
       (\<lambda>e. if media_file e \<and> file_size e \<noteq> None
             then map_option (Pair (entry_path e)) (last_write_time e) else None) es"

subsection \<open>Example inputs\<close>

text \<open>The mapping \<open>{7 \<mapsto> 2}\<close> and nothing else configured.\<close>

definition map72 :: SaveVideo where
  "map72 = SaveVideo_init\<lparr>type_map := [(7, 2)]\<rparr>"

text \<open>
  An outside world in which everything works: the clock reads \<open>t\<close> seconds, the writer
  opens, and the set of class ids is iterated in insertion order.
\<close>

definition env_at :: "int \<Rightarrow> Env" where
  "env_at t =
     \<lparr>now_tp = seconds t, start_now = seconds t + 1, timestr = ''20250101_120000'',
      dtstr = ''2025-01-01 12:00:00'', mkdir_throws = False, writer_open = Opened,
      iter_order = (\<lambda>xs. xs)\<rparr>"

text \<open>A 1920x1080 frame of channel \<open>ch\<close> with a raw image.\<close>

definition frame_on :: "int \<Rightarrow> Frame" where
  "frame_on ch =
     \<lparr>mChannelIdInternal = ch, mEndOfStream = False, mWidth = 1920, mHeight = 1080,
      mFrameRate_mNumber = 25, mFrameRate_mDenominator = 1, mSpDataOsd = None,
      mSpData = Some (1920, 1080), mMat = None\<rparr>"

definition object_on :: "int \<Rightarrow> detection list \<Rightarrow> ObjectMetadata" where
  "object_on ch dets = \<lparr>mFrame = Some (frame_on ch), mDetectedObjectMetadatas = dets, mFilter = True\<rparr>"

text \<open>Storage under \<^verbatim>\<open>/data\<close>, every class triggers after one frame.\<close>

definition cfg_data :: SaveVideo where
  "cfg_data = SaveVideo_init\<lparr>save_dir := ''/data''\<rparr>"

text \<open>Threshold 3 for every class, no filter.\<close>

definition cfg_thr3 :: SaveVideo where
  "cfg_thr3 = SaveVideo_init\<lparr>save_dir := ''/data'', global_min_trigger_frames := 3\<rparr>"

text \<open>Only class 5 triggers, with its own threshold 3.\<close>

definition cfg_only5 :: SaveVideo where
  "cfg_only5 =
     SaveVideo_init\<lparr>save_dir := ''/data'', trigger_classes := {5},
                    per_class_min_trigger_frames := [5 \<mapsto> 3]\<rparr>"

text \<open>Class 5 present at frames 1 and 2, absent at frame 3, present at frames 4, 5 and 6.\<close>

definition gap_frames :: "detection list \<Rightarrow> (Env \<times> Frame \<times> detection list) list" where
  "gap_frames absent =
     [(env_at 1, frame_on 0, [Some 5]), (env_at 2, frame_on 0, [Some 5]),
      (env_at 3, frame_on 0, absent), (env_at 4, frame_on 0, [Some 5]),
      (env_at 5, frame_on 0, [Some 5]), (env_at 6, frame_on 0, [Some 5])]"

text \<open>The same world, but \<^verbatim>\<open>VideoWriter::open\<close> returns \<^verbatim>\<open>false\<close>.\<close>

definition env_open_fails :: "int \<Rightarrow> Env" where
  "env_open_fails t = (env_at t)\<lparr>writer_open := OpenFailed\<rparr>"

text \<open>A channel in the middle of a session that has collected two events.\<close>

definition st_two_events :: ChannelState where
  "st_two_events =
     ChannelState_init
       \<lparr>recording := True, record_end_tp := seconds 11, writer := True, width := 1920,
        height := 1080, pending_video_path := ''/data/ch_0/20250101_120000_type5.mp4'',
        per_class_consecutive_frames := [5 \<mapsto> 4, 7 \<mapsto> 2],
        pending_events :=
          [\<lparr>class_id = 5, alarm_type = 5, img_path = ''/data/ch_0/20250101_120000_type5.jpg'',
            datetime_str = ''2025-01-01 12:00:00''\<rparr>,
           \<lparr>class_id = 7, alarm_type = 5, img_path = ''/data/ch_0/20250101_120003_cls7_type5.jpg'',
            datetime_str = ''2025-01-01 12:00:03''\<rparr>],
        suppressed_classes := {5, 7}\<rparr>"

text \<open>A configuration object with no key at all, and one that only names the storage root.\<close>

definition Configure_empty :: Configure where
  "Configure_empty =
     \<lparr>c_server_url = None, c_save_dir = None, c_base_file_url = None, c_record_seconds = None,
      c_trigger_classes = None, c_min_trigger_frames = None, c_retention_days = None,
      c_retention_max_gb = None, c_cleanup_interval_seconds = None, c_deviceId = None,
      c_deviceIp = None, c_safetyId = None, c_safetyName = None, c_warning = None,
      c_type = None, c_video_url_field = None\<rparr>"

definition Configure_data :: Configure where
  "Configure_data = Configure_empty\<lparr>c_save_dir := Some ''/data''\<rparr>"

text \<open>
  Three one-gibibyte segments written at times 30, 10 and 20 and a text file, a file system
  that still reports one gibibyte per file at deletion time and removes without error, and
  a quota of one and a half gibibytes.
\<close>

definition gib :: "64 word" where
  "gib = 1073741824"

definition three_segments :: "DirEntry list" where
  "three_segments =
     [\<lparr>entry_path = ''/data/ch_0/a.mp4'', is_regular_file = True, file_size = Some gib,
       last_write_time = Some 30\<rparr>,
      \<lparr>entry_path = ''/data/ch_0/b.mp4'', is_regular_file = True, file_size = Some gib,
       last_write_time = Some 10\<rparr>,
      \<lparr>entry_path = ''/data/notes.txt'', is_regular_file = True, file_size = Some gib,
       last_write_time = Some 5\<rparr>,
      \<lparr>entry_path = ''/data/ch_1/c.jpg'', is_regular_file = True, file_size = Some gib,
       last_write_time = Some 20\<rparr>]"

definition cfg_quota :: SaveVideo where
  "cfg_quota = SaveVideo_init\<lparr>save_dir := ''/data'', retention_max_gb := 3 / 2\<rparr>"

text \<open>
  A file system without symbolic links, asked about absolute paths in normal form: each is
  its own canonical form.
\<close>

definition fs_plain :: "string \<Rightarrow> string option" where
  "fs_plain p = Some p"

text \<open>A file system in which \<^verbatim>\<open>weakly_canonical\<close> throws.\<close>

definition fs_denied :: "string \<Rightarrow> string option" where
  "fs_denied p = None"

text \<open>A three-gibibyte segment whose modification time cannot be read.\<close>

definition untimed_segment :: "DirEntry list" where
  "untimed_segment =
     [\<lparr>entry_path = ''/data/ch_0/a.mp4'', is_regular_file = True, file_size = Some (3 * gib),
       last_write_time = None\<rparr>]"

section \<open>Verification\<close>

subsection \<open>Type resolution\<close>

lemma first_valid_find:
  "(case first_valid dets of Some c \<Rightarrow> c | None \<Rightarrow> 0) = raw_id_or_zero dets"
  by (induction dets rule: first_valid.induct) (simp_all add: raw_id_or_zero_def valid_det_def)

lemma mapped_det_simps:
  "mapped_det tm None = False"
  "mapped_det tm (Some c) = (c \<ge> 0 \<and> map_of tm c \<noteq> None)"
  by (simp_all add: mapped_det_def)

lemma first_mapped_find:
  "first_mapped tm dets =
     (case List.find (mapped_det tm) dets of
        Some (Some c) \<Rightarrow> map_of tm c
      | _ \<Rightarrow> None)"
proof (induction tm dets rule: first_mapped.induct)
  case (1 tm)
  show ?case by simp
next
  case (2 tm ds)
  then show ?case by (simp add: mapped_det_simps)
next
  case (3 tm cid ds)
  show ?case
  proof (cases "cid < 0")
    case True
    with 3 show ?thesis by (simp add: mapped_det_simps)
  next
    case False
    show ?thesis
    proof (cases "map_of tm cid")
      case None
      with False 3 show ?thesis by (simp add: mapped_det_simps)
    next
      case (Some t)
      with False show ?thesis by (simp add: mapped_det_simps)
    qed
  qed
qed

lemma find_mapped_has_value:
  "List.find (mapped_det tm) dets = Some (Some c) \<Longrightarrow> map_of tm c \<noteq> None"
proof -
  assume "List.find (mapped_det tm) dets = Some (Some c)"
  then have "mapped_det tm (Some c)" by (auto simp: find_Some_iff)
  then show ?thesis by (simp add: mapped_det_simps)
qed

lemma resolveType_refines: "resolveType cfg dets = resolveType_spec cfg dets"
proof (cases "List.find (mapped_det (type_map cfg)) dets")
  case None
  then show ?thesis
    by (simp add: resolveType_def resolveType_spec_def first_valid_find first_mapped_find
             split: option.splits)
next
  case (Some d)
  show ?thesis
  proof (cases d)
    case None
    with Some show ?thesis
      by (simp add: resolveType_def resolveType_spec_def first_valid_find first_mapped_find
               split: option.splits)
  next
    case (Some c)
    with \<open>List.find (mapped_det (type_map cfg)) dets = Some d\<close>
    have f: "List.find (mapped_det (type_map cfg)) dets = Some (Some c)" by simp
    from find_mapped_has_value [OF f] obtain t where t: "map_of (type_map cfg) c = Some t"
      by auto
    show ?thesis
      by (simp add: resolveType_def resolveType_spec_def first_valid_find first_mapped_find f t
               split: option.splits)
  qed
qed

text \<open>
  C3.  Type resolution follows the four tiers in strict precedence, for every detection
  list: a fixed integer wins; else, in use-raw-class-id mode, the raw id of the first valid
  detection (0 if none); else, with a non-empty mapping, the value mapped to the first valid
  detection whose id is a key, failing that the raw id of the first valid detection, failing
  that 0; else the raw id of the first valid detection, 0 if none.  With the mapping
  \<open>{7 \<mapsto> 2}\<close>: class 7 resolves to 2, the unmapped class 9 to 9, no valid detection to 0.
\<close>

theorem resolveType_precedence:
  "(fixed_type cfg = Some t \<longrightarrow> resolveType cfg dets = t)
   \<and> (fixed_type cfg = None \<and> use_class_id_type cfg \<longrightarrow>
        resolveType cfg dets = raw_id_or_zero dets)
   \<and> (fixed_type cfg = None \<and> \<not> use_class_id_type cfg \<and> type_map cfg \<noteq> [] \<longrightarrow>
        resolveType cfg dets =
          (case List.find (mapped_det (type_map cfg)) dets of
             Some (Some c) \<Rightarrow> (case map_of (type_map cfg) c of Some v \<Rightarrow> v | None \<Rightarrow> 0)
           | _ \<Rightarrow> raw_id_or_zero dets))
   \<and> (fixed_type cfg = None \<and> \<not> use_class_id_type cfg \<and> type_map cfg = [] \<longrightarrow>
        resolveType cfg dets = raw_id_or_zero dets)
   \<and> resolveType map72 [Some 7] = 2
   \<and> resolveType map72 [Some 9] = 9
   \<and> resolveType map72 [None, Some (- 1)] = 0
   \<and> resolveType map72 [] = 0"
proof -
  have spec: "resolveType cfg dets = resolveType_spec cfg dets"
    by (rule resolveType_refines)
  have ex: "resolveType map72 [Some 7] = 2" "resolveType map72 [Some 9] = 9"
    "resolveType map72 [None, Some (- 1)] = 0" "resolveType map72 [] = 0"
    by (simp_all add: resolveType_def map72_def SaveVideo_init_def)
  show ?thesis
    unfolding spec using ex by (simp add: resolveType_spec_def)
qed

theorem resolveType_precedence_witness:
  "resolveType map72 [None, Some (- 1), Some 9, Some 7] = 2
   \<and> resolveType (SaveVideo_init\<lparr>fixed_type := Some 4, type_map := [(7, 2)]\<rparr>) [Some 7] = 4
   \<and> resolveType (SaveVideo_init\<lparr>use_class_id_type := True\<rparr>) [Some (- 5), None, Some 3] = 3"
  using resolveType_precedence [of map72 0 "[None, Some (- 1), Some 9, Some 7]"]
    resolveType_precedence [of "SaveVideo_init\<lparr>fixed_type := Some 4, type_map := [(7, 2)]\<rparr>" 4 "[Some 7]"]
    resolveType_precedence [of "SaveVideo_init\<lparr>use_class_id_type := True\<rparr>" 0 "[Some (- 5), None, Some 3]"]
  by (simp add: map72_def SaveVideo_init_def mapped_det_def raw_id_or_zero_def valid_det_def)

subsection \<open>The trigger engine\<close>

lemma frame_class_ids_mem:
  "c \<in> set (frame_class_ids T dets acc) \<longleftrightarrow>
     c \<in> set acc \<or> (Some c \<in> set dets \<and> c \<ge> 0 \<and> tracked T c)"
  by (induction T dets acc rule: frame_class_ids.induct) auto

lemma frame_class_ids_distinct:
  "distinct acc \<Longrightarrow> distinct (frame_class_ids T dets acc)"
  by (induction T dets acc rule: frame_class_ids.induct) simp_all

lemma count_loop_Cons:
  "count_loop cfg supp (cid # cids) m newly =
     count_loop cfg supp cids (m(cid \<mapsto> count_of m cid + 1))
       (if need_of cfg cid \<le> count_of m cid + 1 \<and> count_of m cid < need_of cfg cid \<and> cid \<notin> supp
        then newly @ [cid] else newly)"
  by (simp add: Let_def)

declare count_loop.simps(2) [simp del]

lemma count_loop_newly_subset:
  "set (snd (count_loop cfg supp cids m newly)) \<subseteq> set newly \<union> (set cids - supp)"
proof (induction cids arbitrary: m newly)
  case Nil
  show ?case by simp
next
  case (Cons cid cids)
  have a: "set (snd (count_loop cfg supp cids (m(cid \<mapsto> count_of m cid + 1)) (newly @ [cid])))
      \<subseteq> set (newly @ [cid]) \<union> (set cids - supp)" by (rule Cons.IH)
  have b: "set (snd (count_loop cfg supp cids (m(cid \<mapsto> count_of m cid + 1)) newly))
      \<subseteq> set newly \<union> (set cids - supp)" by (rule Cons.IH)
  show ?case
  proof (cases "need_of cfg cid \<le> count_of m cid + 1 \<and> count_of m cid < need_of cfg cid \<and> cid \<notin> supp")
    case True
    then show ?thesis using a by (simp only: count_loop_Cons if_True) auto
  next
    case False
    then show ?thesis using b by (simp only: count_loop_Cons if_False) auto
  qed
qed

lemma count_loop_newly_distinct:
  "distinct cids \<Longrightarrow> distinct newly \<Longrightarrow> set newly \<inter> set cids = {} \<Longrightarrow>
   distinct (snd (count_loop cfg supp cids m newly))"
proof (induction cids arbitrary: m newly)
  case Nil
  then show ?case by simp
next
  case (Cons cid cids)
  have a: "distinct (snd (count_loop cfg supp cids (m(cid \<mapsto> count_of m cid + 1)) (newly @ [cid])))"
    using Cons.prems by (intro Cons.IH) auto
  have b: "distinct (snd (count_loop cfg supp cids (m(cid \<mapsto> count_of m cid + 1)) newly))"
    using Cons.prems by (intro Cons.IH) auto
  show ?case using a b by (simp only: count_loop_Cons split: if_split) simp
qed

lemma count_of_upd:
  "count_of (m(c \<mapsto> v)) k = (if k = c then v else count_of m k)"
  by (simp add: count_of_def)

lemma count_loop_counter:
  "distinct cids \<Longrightarrow>
   count_of (fst (count_loop cfg supp cids m newly)) k =
     (if k \<in> set cids then count_of m k + 1 else count_of m k)"
proof (induction cids arbitrary: m newly)
  case Nil
  show ?case by simp
next
  case (Cons cid cids)
  from Cons.prems have d: "distinct cids" and n: "cid \<notin> set cids" by simp_all
  show ?case
    unfolding count_loop_Cons Cons.IH [OF d] count_of_upd using n by auto
qed

lemma count_loop_newly_iff:
  "distinct cids \<Longrightarrow>
   k \<in> set (snd (count_loop cfg supp cids m newly)) \<longleftrightarrow>
     k \<in> set newly \<or>
     (k \<in> set cids \<and> need_of cfg k \<le> count_of m k + 1 \<and> count_of m k < need_of cfg k \<and> k \<notin> supp)"
proof (induction cids arbitrary: m newly)
  case Nil
  show ?case by simp
next
  case (Cons cid cids)
  from Cons.prems have d: "distinct cids" and n: "cid \<notin> set cids" by simp_all
  show ?case
    unfolding count_loop_Cons Cons.IH [OF d] count_of_upd using n by auto
qed

lemma count_phase_fields:
  "recording (fst (count_phase cfg env dets st)) = recording st"
  "record_end_tp (fst (count_phase cfg env dets st)) = record_end_tp st"
  "writer (fst (count_phase cfg env dets st)) = writer st"
  "pending_video_path (fst (count_phase cfg env dets st)) = pending_video_path st"
  "pending_events (fst (count_phase cfg env dets st)) = pending_events st"
  "suppressed_classes (fst (count_phase cfg env dets st)) = suppressed_classes st"
  by (simp_all add: count_phase_def Let_def)

lemma count_phase_newly_unsuppressed:
  "cid \<in> set (snd (count_phase cfg env dets st)) \<Longrightarrow> cid \<notin> suppressed_classes st"
  using count_loop_newly_subset
    [of cfg "suppressed_classes st"
        "iter_order env (frame_class_ids (trigger_classes cfg) dets [])"
        "per_class_consecutive_frames st" "[]"]
  by (auto simp: count_phase_def Let_def split: if_splits)

lemma count_phase_newly_distinct:
  assumes "iter_order_ok (iter_order env)"
  shows "distinct (snd (count_phase cfg env dets st))"
proof -
  have "distinct (frame_class_ids (trigger_classes cfg) dets [])"
    by (rule frame_class_ids_distinct) simp
  with assms have "distinct (iter_order env (frame_class_ids (trigger_classes cfg) dets []))"
    by (simp add: iter_order_ok_def)
  then have "distinct (snd (count_loop cfg (suppressed_classes st)
      (iter_order env (frame_class_ids (trigger_classes cfg) dets []))
      (per_class_consecutive_frames st) []))"
    by (rule count_loop_newly_distinct) simp_all
  then show ?thesis by (simp add: count_phase_def Let_def)
qed

lemma count_of_reset_absent:
  "count_of (reset_absent T ids m) k = (if tracked T k \<and> k \<notin> set ids then 0 else count_of m k)"
  by (simp add: count_of_def reset_absent_def split: option.splits)

lemma count_of_clear_counts:
  "tracked T k \<Longrightarrow> count_of (clear_counts T m) k = 0"
  by (auto simp: count_of_def clear_counts_def tracked_def)

lemma count_phase_absent_zero:
  assumes "tracked (trigger_classes cfg) cid" and "Some cid \<notin> set dets"
  shows "count_of (per_class_consecutive_frames (fst (count_phase cfg env dets st))) cid = 0"
proof (cases "hasTarget cfg dets")
  case True
  from assms(2) have "cid \<notin> set (frame_class_ids (trigger_classes cfg) dets [])"
    by (simp add: frame_class_ids_mem)
  with True assms(1) show ?thesis
    by (simp add: count_phase_def Let_def count_of_reset_absent)
next
  case False
  with assms(1) show ?thesis
    by (simp add: count_phase_def count_of_clear_counts)
qed

subsection \<open>The recording session\<close>

lemma snapshot_loop_fields:
  "recording (fst (snapshot_loop img dt rt idx cids st)) = recording st"
  "record_end_tp (fst (snapshot_loop img dt rt idx cids st)) = record_end_tp st"
  "writer (fst (snapshot_loop img dt rt idx cids st)) = writer st"
  "pending_video_path (fst (snapshot_loop img dt rt idx cids st)) = pending_video_path st"
  "per_class_consecutive_frames (fst (snapshot_loop img dt rt idx cids st)) =
     per_class_consecutive_frames st"
  by (induction img dt rt idx cids st rule: snapshot_loop.induct) (simp_all add: Let_def)

lemma snapshot_loop_suppressed:
  "suppressed_classes (fst (snapshot_loop img dt rt idx cids st)) = suppressed_classes st \<union> set cids"
  by (induction img dt rt idx cids st rule: snapshot_loop.induct) (simp_all add: Let_def)

lemma snapshot_loop_pending:
  "pending_events (fst (snapshot_loop img dt rt idx cids st)) =
     pending_events st @
     map (\<lambda>(i, cid). \<lparr>class_id = cid, alarm_type = rt, img_path = img i cid, datetime_str = dt\<rparr>)
       (zip [idx ..< idx + length cids] cids)"
proof (induction img dt rt idx cids st rule: snapshot_loop.induct)
  case (1 img dt rt idx st)
  show ?case by simp
next
  case (2 img dt rt idx cid cids st)
  have "[idx ..< idx + length (cid # cids)] = idx # [Suc idx ..< Suc idx + length cids]"
    using upt_conv_Cons [of idx "idx + Suc (length cids)"] by (simp del: upt_Suc)
  with 2 show ?case by (simp add: Let_def del: upt_Suc)
qed

lemma snapshot_loop_class_ids:
  "map class_id (pending_events (fst (snapshot_loop img dt rt idx cids st))) =
     map class_id (pending_events st) @ cids"
  by (induction img dt rt idx cids st rule: snapshot_loop.induct) (simp_all add: Let_def)

lemma snapshot_loop_effects:
  "snd (snapshot_loop img dt rt idx cids st) =
     map (\<lambda>(i, cid). SaveSnapshot (img i cid)) (zip [idx ..< idx + length cids] cids)"
proof (induction img dt rt idx cids st rule: snapshot_loop.induct)
  case (1 img dt rt idx st)
  show ?case by simp
next
  case (2 img dt rt idx cid cids st)
  have "[idx ..< idx + length (cid # cids)] = idx # [Suc idx ..< Suc idx + length cids]"
    using upt_conv_Cons [of idx "idx + Suc (length cids)"] by (simp del: upt_Suc)
  with 2 show ?case by (simp add: Let_def del: upt_Suc)
qed

lemma startRecording_fields:
  "pending_events (fst (snd (startRecording cfg env st frame p))) = pending_events st"
  "suppressed_classes (fst (snd (startRecording cfg env st frame p))) = suppressed_classes st"
  "per_class_consecutive_frames (fst (snd (startRecording cfg env st frame p))) =
     per_class_consecutive_frames st"
  "pending_video_path (fst (snd (startRecording cfg env st frame p))) = pending_video_path st"
  by (simp_all add: startRecording_def Let_def split: open_result.splits)

lemma startRecording_recording:
  "recording (fst (snd (startRecording cfg env st frame p))) =
     (recording st \<or> fst (startRecording cfg env st frame p))"
  by (simp add: startRecording_def Let_def split: open_result.splits)

lemma classes_to_add_unsuppressed:
  "(\<And>cid. cid \<in> set newly \<Longrightarrow> cid \<notin> suppressed_classes st) \<Longrightarrow> classes_to_add st newly = newly"
  by (simp add: classes_to_add_def filter_id_conv)

lemma session_inv_init: "session_inv ChannelState_init"
  by (simp add: session_inv_def ChannelState_init_def)

lemma session_phase_inv:
  assumes inv: "session_inv st"
    and dist: "distinct newly"
    and unsup: "\<And>cid. cid \<in> set newly \<Longrightarrow> cid \<notin> suppressed_classes st"
  shows "session_inv (fst (session_phase cfg env ch frame dets newly st))"
proof (cases "newly = []")
  case True
  with inv show ?thesis by (simp add: session_phase_def)
next
  case ne: False
  have cta: "classes_to_add st newly = newly"
    using unsup by (rule classes_to_add_unsuppressed)
  show ?thesis
  proof (cases "recording st")
    case True
    from inv have old: "distinct (map class_id (pending_events st))"
      "set (map class_id (pending_events st)) \<subseteq> suppressed_classes st"
      "pending_video_path st \<noteq> []"
      using True by (simp_all add: session_inv_def)
    from old(2) unsup have disj: "set (map class_id (pending_events st)) \<inter> set newly = {}"
      by auto
    from True ne show ?thesis
      using old dist disj
      by (auto simp: session_phase_def Let_def cta session_inv_def snapshot_loop_class_ids
            snapshot_loop_suppressed snapshot_loop_fields)
  next
    case False
    show ?thesis
    proof (cases "fst (startRecording cfg env st frame
                   (base_path cfg ch (timestr env) (resolveType cfg dets) @ ''.mp4''))")
      case True
      with False ne dist show ?thesis
        by (simp add: session_phase_def Let_def cta session_inv_def snapshot_loop_class_ids
              snapshot_loop_suppressed snapshot_loop_fields)
    next
      case nok: False
      with False ne show ?thesis
        by (simp add: session_phase_def Let_def cta session_inv_def)
    qed
  qed
qed

lemma finalize_phase_inv:
  "session_inv st \<Longrightarrow> session_inv (fst (finalize_phase env ch frame st))"
  by (simp add: finalize_phase_def Let_def session_inv_def stopRecording_def)

lemma count_phase_inv:
  "session_inv st \<Longrightarrow> session_inv (fst (count_phase cfg env dets st))"
  by (simp add: session_inv_def count_phase_fields)

lemma doWork_frame_inv:
  assumes "session_inv st" and "iter_order_ok (iter_order env)"
  shows "session_inv (fst (doWork_frame cfg env ch frame dets st))"
proof -
  let ?c = "count_phase cfg env dets st"
  have 1: "session_inv (fst ?c)" using assms(1) by (rule count_phase_inv)
  have 2: "distinct (snd ?c)" using assms(2) by (rule count_phase_newly_distinct)
  have 3: "\<And>cid. cid \<in> set (snd ?c) \<Longrightarrow> cid \<notin> suppressed_classes (fst ?c)"
    by (simp add: count_phase_fields count_phase_newly_unsuppressed)
  have "session_inv (fst (session_phase cfg env ch frame dets (snd ?c) (fst ?c)))"
    using 1 2 3 by (rule session_phase_inv)
  then show ?thesis
    by (simp add: doWork_frame_def Let_def finalize_phase_inv)
qed

lemma doWork_inv:
  assumes "channels_inv channels" and "iter_order_ok (iter_order env)"
  shows "channels_inv (fst (doWork cfg env data channels))"
proof (cases data)
  case None
  with assms(1) show ?thesis by (simp add: doWork_def)
next
  case (Some obj)
  show ?thesis
  proof (cases "mFrame obj")
    case None
    with Some assms(1) show ?thesis by (simp add: doWork_def)
  next
    case (Some frame)
    show ?thesis
    proof (cases "mEndOfStream frame")
      case True
      with Some \<open>data = Some obj\<close> assms(1) show ?thesis by (simp add: doWork_def)
    next
      case False
      let ?st = "case channels (mChannelIdInternal frame) of None \<Rightarrow> ChannelState_init | Some x \<Rightarrow> x"
      have "session_inv ?st"
        using assms(1) by (auto simp: channels_inv_def session_inv_init split: option.splits)
      then have "session_inv (fst (doWork_frame cfg env (mChannelIdInternal frame) frame
                   (mDetectedObjectMetadatas obj) ?st))"
        using assms(2) by (rule doWork_frame_inv)
      with False Some \<open>data = Some obj\<close> assms(1) show ?thesis
        by (simp add: doWork_def Let_def channels_inv_def)
    qed
  qed
qed

lemma run_inv:
  "channels_inv channels \<Longrightarrow> (\<forall>x \<in> set inputs. iter_order_ok (iter_order (fst x))) \<Longrightarrow>
   channels_inv (run cfg inputs channels)"
proof (induction inputs arbitrary: channels)
  case Nil
  then show ?case by simp
next
  case (Cons x inputs)
  obtain env data where x: "x = (env, data)" by (cases x)
  from Cons.prems have "channels_inv (fst (doWork cfg env data channels))"
    by (intro doWork_inv) (simp_all add: x)
  with Cons show ?case by (simp add: x)
qed

lemma session_phase_counters:
  "per_class_consecutive_frames (fst (session_phase cfg env ch frame dets newly st)) =
     per_class_consecutive_frames st"
  by (simp add: session_phase_def Let_def snapshot_loop_fields startRecording_fields)

lemma finalize_phase_counters:
  "per_class_consecutive_frames (fst (finalize_phase env ch frame st)) =
     per_class_consecutive_frames st"
  by (simp add: finalize_phase_def Let_def stopRecording_def)

lemma doWork_frame_counters:
  "per_class_consecutive_frames (fst (doWork_frame cfg env ch frame dets st)) =
     per_class_consecutive_frames (fst (count_phase cfg env dets st))"
  by (simp add: doWork_frame_def Let_def finalize_phase_counters session_phase_counters)

lemma doWork_frame_newly:
  "fst (snd (doWork_frame cfg env ch frame dets st)) = snd (count_phase cfg env dets st)"
  by (simp add: doWork_frame_def Let_def)

lemma iter_order_ok_id: "iter_order_ok (\<lambda>xs. xs)"
  by (simp add: iter_order_ok_def)

lemma doWork_frame_in_session:
  assumes rec: "recording st" and early: "now_tp env < record_end_tp st"
  shows "map class_id (pending_events (fst (doWork_frame cfg env ch frame dets st))) =
           map class_id (pending_events st) @ fst (snd (doWork_frame cfg env ch frame dets st))
         \<and> suppressed_classes (fst (doWork_frame cfg env ch frame dets st)) =
           suppressed_classes st \<union> set (fst (snd (doWork_frame cfg env ch frame dets st)))
         \<and> recording (fst (doWork_frame cfg env ch frame dets st))"
proof -
  let ?c = "count_phase cfg env dets st"
  let ?s = "session_phase cfg env ch frame dets (snd ?c) (fst ?c)"
  have cta: "classes_to_add (fst ?c) (snd ?c) = snd ?c"
    by (rule classes_to_add_unsuppressed)
       (simp add: count_phase_fields count_phase_newly_unsuppressed)
  have s: "map class_id (pending_events (fst ?s)) = map class_id (pending_events st) @ snd ?c
      \<and> suppressed_classes (fst ?s) = suppressed_classes st \<union> set (snd ?c)
      \<and> recording (fst ?s) \<and> record_end_tp (fst ?s) = record_end_tp st"
    using rec
    by (simp add: session_phase_def Let_def cta count_phase_fields snapshot_loop_class_ids
          snapshot_loop_suppressed snapshot_loop_fields)
  have f: "fst (finalize_phase env ch frame (fst ?s)) = fst ?s"
    using s early by (simp add: finalize_phase_def Let_def)
  show ?thesis
    using s by (simp add: doWork_frame_def Let_def f)
qed

text \<open>
  C1.  In every state the element reaches from its start, on every channel, the pending
  events of the session name pairwise distinct classes, all of them suppressed; a
  suppressed class is never marked newly fired; and a frame inside an open session (before
  its deadline) appends exactly one pending event per newly fired class and suppresses it.
  (The iteration of the frame's class set visits each class once.)
\<close>

theorem class_fires_once_per_session:
  assumes "\<forall>x \<in> set inputs. iter_order_ok (iter_order (fst x))"
  shows "(\<forall>c s. run cfg inputs Map.empty c = Some s \<longrightarrow>
            distinct (map class_id (pending_events s))
            \<and> set (map class_id (pending_events s)) \<subseteq> suppressed_classes s)
         \<and> (cid \<in> suppressed_classes st \<longrightarrow>
              cid \<notin> set (fst (snd (doWork_frame cfg env ch frame dets st))))
         \<and> (recording st \<and> now_tp env < record_end_tp st \<longrightarrow>
              map class_id (pending_events (fst (doWork_frame cfg env ch frame dets st))) =
                map class_id (pending_events st) @ fst (snd (doWork_frame cfg env ch frame dets st))
              \<and> suppressed_classes (fst (doWork_frame cfg env ch frame dets st)) =
                suppressed_classes st \<union> set (fst (snd (doWork_frame cfg env ch frame dets st))))"
proof -
  have "channels_inv Map.empty" by (simp add: channels_inv_def)
  then have "channels_inv (run cfg inputs Map.empty)"
    using assms by (rule run_inv)
  then have a: "\<forall>c s. run cfg inputs Map.empty c = Some s \<longrightarrow>
            distinct (map class_id (pending_events s))
            \<and> set (map class_id (pending_events s)) \<subseteq> suppressed_classes s"
    by (simp add: channels_inv_def session_inv_def)
  have b: "cid \<in> suppressed_classes st \<longrightarrow>
              cid \<notin> set (fst (snd (doWork_frame cfg env ch frame dets st)))"
    using count_phase_newly_unsuppressed [of cid cfg env dets st]
    by (auto simp: doWork_frame_newly)
  show ?thesis
    using a b doWork_frame_in_session [of st env cfg ch frame dets] by blast
qed

theorem class_fires_once_per_session_witness:
  "(\<exists>s. run cfg_data [(env_at 1, Some (object_on 0 [Some 5, Some 5, Some 7])),
                        (env_at 2, Some (object_on 0 [Some 5, Some 9]))] Map.empty 0 = Some s
        \<and> map class_id (pending_events s) = [5, 7, 9]
        \<and> distinct (map class_id (pending_events s))
        \<and> set (map class_id (pending_events s)) \<subseteq> suppressed_classes s)"
proof -
  let ?inputs = "[(env_at 1, Some (object_on 0 [Some 5, Some 5, Some 7])),
                  (env_at 2, Some (object_on 0 [Some 5, Some 9]))]"
  have ok: "\<forall>x \<in> set ?inputs. iter_order_ok (iter_order (fst x))"
    by (simp add: env_at_def iter_order_ok_id)
  have ne: "run cfg_data ?inputs Map.empty 0 \<noteq> None"
    by code_simp
  then obtain s where s: "run cfg_data ?inputs Map.empty 0 = Some s" by auto
  have "map class_id (pending_events (the (run cfg_data ?inputs Map.empty 0))) = [5, 7, 9]"
    by code_simp
  then have ev: "map class_id (pending_events s) = [5, 7, 9]"
    unfolding s by (simp only: option.sel)
  from class_fires_once_per_session [OF ok, of cfg_data 0 ChannelState_init "env_at 1" 0 "frame_on 0" "[]"] s
  have "distinct (map class_id (pending_events s))
        \<and> set (map class_id (pending_events s)) \<subseteq> suppressed_classes s"
    by blast
  then have d: "distinct (map class_id (pending_events s))"
    and sub: "set (map class_id (pending_events s)) \<subseteq> suppressed_classes s"
    by simp_all
  show ?thesis
    by (rule exI [of _ s]) (rule conjI s ev d sub)+
qed

lemma hasTarget_false_absent:
  "\<not> hasTarget cfg dets \<Longrightarrow> tracked (trigger_classes cfg) k \<Longrightarrow> Some k \<notin> set dets"
  by (auto simp: hasTarget_def tracked_def list_ex_iff split: if_splits)

lemma count_of_clear_counts_other:
  "\<not> tracked T k \<Longrightarrow> count_of (clear_counts T m) k = count_of m k"
  by (auto simp: count_of_def clear_counts_def tracked_def)

lemma count_phase_counter:
  assumes "iter_order_ok (iter_order env)"
  shows "count_of (per_class_consecutive_frames (fst (count_phase cfg env dets st))) k =
           (if Some k \<in> set dets \<and> k \<ge> 0 \<and> tracked (trigger_classes cfg) k
            then count_of (per_class_consecutive_frames st) k + 1
            else if tracked (trigger_classes cfg) k then 0
            else count_of (per_class_consecutive_frames st) k)"
proof (cases "hasTarget cfg dets")
  case True
  let ?ids = "frame_class_ids (trigger_classes cfg) dets []"
  have d: "distinct ?ids" by (rule frame_class_ids_distinct) simp
  with assms have di: "distinct (iter_order env ?ids)" and si: "set (iter_order env ?ids) = set ?ids"
    by (simp_all add: iter_order_ok_def)
  have m: "k \<in> set ?ids \<longleftrightarrow> Some k \<in> set dets \<and> k \<ge> 0 \<and> tracked (trigger_classes cfg) k"
    by (simp add: frame_class_ids_mem)
  show ?thesis
    using True m
    by (simp add: count_phase_def Let_def count_of_reset_absent count_loop_counter [OF di] si)
next
  case False
  show ?thesis
  proof (cases "tracked (trigger_classes cfg) k")
    case True
    with False have "Some k \<notin> set dets" by (rule hasTarget_false_absent)
    with False True show ?thesis by (simp add: count_phase_def count_of_clear_counts)
  next
    case nt: False
    with False show ?thesis by (simp add: count_phase_def count_of_clear_counts_other)
  qed
qed

lemma count_phase_fires:
  assumes "iter_order_ok (iter_order env)"
  shows "k \<in> set (snd (count_phase cfg env dets st)) \<longleftrightarrow>
           Some k \<in> set dets \<and> k \<ge> 0 \<and> tracked (trigger_classes cfg) k
           \<and> count_of (per_class_consecutive_frames st) k < need_of cfg k
           \<and> need_of cfg k \<le> count_of (per_class_consecutive_frames st) k + 1
           \<and> k \<notin> suppressed_classes st"
proof (cases "hasTarget cfg dets")
  case True
  let ?ids = "frame_class_ids (trigger_classes cfg) dets []"
  have d: "distinct ?ids" by (rule frame_class_ids_distinct) simp
  with assms have di: "distinct (iter_order env ?ids)" and si: "set (iter_order env ?ids) = set ?ids"
    by (simp_all add: iter_order_ok_def)
  have m: "k \<in> set ?ids \<longleftrightarrow> Some k \<in> set dets \<and> k \<ge> 0 \<and> tracked (trigger_classes cfg) k"
    by (simp add: frame_class_ids_mem)
  show ?thesis
    using True m
    by (auto simp: count_phase_def Let_def count_loop_newly_iff [OF di] si)
next
  case False
  then have "tracked (trigger_classes cfg) k \<Longrightarrow> Some k \<notin> set dets"
    by (rule hasTarget_false_absent)
  with False show ?thesis by (auto simp: count_phase_def)
qed

lemma session_phase_suppressed:
  "suppressed_classes (fst (session_phase cfg env ch frame dets newly st))
     \<subseteq> suppressed_classes st \<union> set newly"
  by (auto simp: session_phase_def Let_def snapshot_loop_suppressed classes_to_add_def)

lemma finalize_phase_suppressed:
  "suppressed_classes (fst (finalize_phase env ch frame st)) \<subseteq> suppressed_classes st"
  by (simp add: finalize_phase_def Let_def stopRecording_def)

lemma doWork_frame_suppressed:
  "suppressed_classes (fst (doWork_frame cfg env ch frame dets st))
     \<subseteq> suppressed_classes st \<union> set (fst (snd (doWork_frame cfg env ch frame dets st)))"
proof -
  let ?c = "count_phase cfg env dets st"
  let ?s = "session_phase cfg env ch frame dets (snd ?c) (fst ?c)"
  have "suppressed_classes (fst (finalize_phase env ch frame (fst ?s))) \<subseteq> suppressed_classes (fst ?s)"
    by (rule finalize_phase_suppressed)
  also have "\<dots> \<subseteq> suppressed_classes (fst ?c) \<union> set (snd ?c)"
    by (rule session_phase_suppressed)
  finally show ?thesis
    by (simp add: doWork_frame_def Let_def count_phase_fields)
qed

text \<open>
  One frame, seen from a tracked class \<open>c\<close> that is not suppressed: its counter goes up by
  one when the class is in the frame and to zero when it is not; it newly fires exactly
  when present with the counter crossing the threshold; and it stays unsuppressed unless it
  fires.
\<close>

lemma doWork_frame_step:
  assumes ok: "iter_order_ok (iter_order env)"
    and tr: "tracked (trigger_classes cfg) c" and nn: "0 \<le> c"
    and ns: "c \<notin> suppressed_classes st"
  shows "count_of (per_class_consecutive_frames (fst (doWork_frame cfg env ch frame dets st))) c =
           (if Some c \<in> set dets then count_of (per_class_consecutive_frames st) c + 1 else 0)"
    and "c \<in> set (fst (snd (doWork_frame cfg env ch frame dets st))) \<longleftrightarrow>
           Some c \<in> set dets
           \<and> count_of (per_class_consecutive_frames st) c < need_of cfg c
           \<and> need_of cfg c \<le> count_of (per_class_consecutive_frames st) c + 1"
    and "c \<notin> set (fst (snd (doWork_frame cfg env ch frame dets st))) \<Longrightarrow>
           c \<notin> suppressed_classes (fst (doWork_frame cfg env ch frame dets st))"
proof -
  show "count_of (per_class_consecutive_frames (fst (doWork_frame cfg env ch frame dets st))) c =
           (if Some c \<in> set dets then count_of (per_class_consecutive_frames st) c + 1 else 0)"
    using tr nn by (simp add: doWork_frame_counters count_phase_counter [OF ok])
  show "c \<in> set (fst (snd (doWork_frame cfg env ch frame dets st))) \<longleftrightarrow>
           Some c \<in> set dets
           \<and> count_of (per_class_consecutive_frames st) c < need_of cfg c
           \<and> need_of cfg c \<le> count_of (per_class_consecutive_frames st) c + 1"
    using tr nn ns by (simp add: doWork_frame_newly count_phase_fires [OF ok])
  show "c \<notin> set (fst (snd (doWork_frame cfg env ch frame dets st))) \<Longrightarrow>
           c \<notin> suppressed_classes (fst (doWork_frame cfg env ch frame dets st))"
    using ns doWork_frame_suppressed [of cfg env ch frame dets st] by auto
qed

lemma gap_scenario:
  assumes ok: "iter_order_ok (iter_order e1)" "iter_order_ok (iter_order e2)"
      "iter_order_ok (iter_order e3)" "iter_order_ok (iter_order e4)"
      "iter_order_ok (iter_order e5)" "iter_order_ok (iter_order e6)"
    and tr: "tracked (trigger_classes cfg) c" and nn: "0 \<le> c" and need: "need_of cfg c = 3"
    and s0: "count_of (per_class_consecutive_frames st) c = 0" "c \<notin> suppressed_classes st"
    and pr: "Some c \<in> set d1" "Some c \<in> set d2" "Some c \<notin> set d3"
      "Some c \<in> set d4" "Some c \<in> set d5" "Some c \<in> set d6"
  shows "\<exists>n1 n2 n3 n4 n5 n6.
           fired_trace cfg ch
             [(e1, f1, d1), (e2, f2, d2), (e3, f3, d3), (e4, f4, d4), (e5, f5, d5), (e6, f6, d6)] st
             = [n1, n2, n3, n4, n5, n6]
           \<and> c \<notin> set n1 \<and> c \<notin> set n2 \<and> c \<notin> set n3 \<and> c \<notin> set n4 \<and> c \<notin> set n5
           \<and> c \<in> set n6"
proof -
  let ?r1 = "doWork_frame cfg e1 ch f1 d1 st"
  let ?r2 = "doWork_frame cfg e2 ch f2 d2 (fst ?r1)"
  let ?r3 = "doWork_frame cfg e3 ch f3 d3 (fst ?r2)"
  let ?r4 = "doWork_frame cfg e4 ch f4 d4 (fst ?r3)"
  let ?r5 = "doWork_frame cfg e5 ch f5 d5 (fst ?r4)"
  let ?r6 = "doWork_frame cfg e6 ch f6 d6 (fst ?r5)"
  note st = doWork_frame_step [OF _ tr nn]
  have c1: "count_of (per_class_consecutive_frames (fst ?r1)) c = 1"
    and n1: "c \<notin> set (fst (snd ?r1))"
    using st(1,2) [OF ok(1) s0(2), of ch f1 d1] s0(1) pr(1) need by simp_all
  have u1: "c \<notin> suppressed_classes (fst ?r1)"
    using st(3) [OF ok(1) s0(2) n1] .
  have c2: "count_of (per_class_consecutive_frames (fst ?r2)) c = 2"
    and n2: "c \<notin> set (fst (snd ?r2))"
    using st(1,2) [OF ok(2) u1, of ch f2 d2] c1 pr(2) need by simp_all
  have u2: "c \<notin> suppressed_classes (fst ?r2)"
    using st(3) [OF ok(2) u1 n2] .
  have c3: "count_of (per_class_consecutive_frames (fst ?r3)) c = 0"
    and n3: "c \<notin> set (fst (snd ?r3))"
    using st(1,2) [OF ok(3) u2, of ch f3 d3] c2 pr(3) need by simp_all
  have u3: "c \<notin> suppressed_classes (fst ?r3)"
    using st(3) [OF ok(3) u2 n3] .
  have c4: "count_of (per_class_consecutive_frames (fst ?r4)) c = 1"
    and n4: "c \<notin> set (fst (snd ?r4))"
    using st(1,2) [OF ok(4) u3, of ch f4 d4] c3 pr(4) need by simp_all
  have u4: "c \<notin> suppressed_classes (fst ?r4)"
    using st(3) [OF ok(4) u3 n4] .
  have c5: "count_of (per_class_consecutive_frames (fst ?r5)) c = 2"
    and n5: "c \<notin> set (fst (snd ?r5))"
    using st(1,2) [OF ok(5) u4, of ch f5 d5] c4 pr(5) need by simp_all
  have u5: "c \<notin> suppressed_classes (fst ?r5)"
    using st(3) [OF ok(5) u4 n5] .
  have n6: "c \<in> set (fst (snd ?r6))"
    using st(2) [OF ok(6) u5, of ch f6 d6] c5 pr(6) need by simp
  have t: "fired_trace cfg ch
             [(e1, f1, d1), (e2, f2, d2), (e3, f3, d3), (e4, f4, d4), (e5, f5, d5), (e6, f6, d6)] st
           = [fst (snd ?r1), fst (snd ?r2), fst (snd ?r3), fst (snd ?r4), fst (snd ?r5),
              fst (snd ?r6)]"
    by (simp add: Let_def)
  show ?thesis
    unfolding t using n1 n2 n3 n4 n5 n6 by blast
qed

text \<open>
  C2.  Counting is strictly consecutive: after a frame in which a tracked class (a filter
  class, or any class when the filter is empty) is absent, its counter is zero.  With
  threshold 3 for a tracked class that starts at zero and unsuppressed, present at frames 1
  and 2, absent at frame 3 and present at frames 4, 5 and 6, the class newly fires at frame
  6 and at no earlier frame, whatever else the frames hold and whatever the outside world
  does.  For class 5 this is evaluated both without a filter (another class seen at frame
  3) and with the filter \<open>{5}\<close> (nothing seen at frame 3).
\<close>

theorem counter_resets_on_absence:
  "(tracked (trigger_classes cfg) cid \<and> Some cid \<notin> set dets \<longrightarrow>
      count_of (per_class_consecutive_frames (fst (doWork_frame cfg env ch frame dets st))) cid = 0)
   \<and> (iter_order_ok (iter_order e1) \<and> iter_order_ok (iter_order e2)
        \<and> iter_order_ok (iter_order e3) \<and> iter_order_ok (iter_order e4)
        \<and> iter_order_ok (iter_order e5) \<and> iter_order_ok (iter_order e6)
        \<and> tracked (trigger_classes cfg) c \<and> 0 \<le> c \<and> need_of cfg c = 3
        \<and> count_of (per_class_consecutive_frames st) c = 0 \<and> c \<notin> suppressed_classes st
        \<and> Some c \<in> set d1 \<and> Some c \<in> set d2 \<and> Some c \<notin> set d3
        \<and> Some c \<in> set d4 \<and> Some c \<in> set d5 \<and> Some c \<in> set d6 \<longrightarrow>
      (\<exists>n1 n2 n3 n4 n5 n6.
         fired_trace cfg ch
           [(e1, f1, d1), (e2, f2, d2), (e3, f3, d3), (e4, f4, d4), (e5, f5, d5), (e6, f6, d6)] st
           = [n1, n2, n3, n4, n5, n6]
         \<and> c \<notin> set n1 \<and> c \<notin> set n2 \<and> c \<notin> set n3 \<and> c \<notin> set n4 \<and> c \<notin> set n5
         \<and> c \<in> set n6))
   \<and> fired_trace cfg_thr3 0 (gap_frames [Some 8]) ChannelState_init = [[], [], [], [], [], [5]]
   \<and> fired_trace cfg_only5 0 (gap_frames []) ChannelState_init = [[], [], [], [], [], [5]]"
proof -
  have a: "fired_trace cfg_thr3 0 (gap_frames [Some 8]) ChannelState_init = [[], [], [], [], [], [5]]"
    by code_simp
  have b: "fired_trace cfg_only5 0 (gap_frames []) ChannelState_init = [[], [], [], [], [], [5]]"
    by code_simp
  have c: "tracked (trigger_classes cfg) cid \<and> Some cid \<notin> set dets \<longrightarrow>
      count_of (per_class_consecutive_frames (fst (doWork_frame cfg env ch frame dets st))) cid = 0"
    by (simp add: doWork_frame_counters count_phase_absent_zero)
  have d: "iter_order_ok (iter_order e1) \<and> iter_order_ok (iter_order e2)
        \<and> iter_order_ok (iter_order e3) \<and> iter_order_ok (iter_order e4)
        \<and> iter_order_ok (iter_order e5) \<and> iter_order_ok (iter_order e6)
        \<and> tracked (trigger_classes cfg) c \<and> 0 \<le> c \<and> need_of cfg c = 3
        \<and> count_of (per_class_consecutive_frames st) c = 0 \<and> c \<notin> suppressed_classes st
        \<and> Some c \<in> set d1 \<and> Some c \<in> set d2 \<and> Some c \<notin> set d3
        \<and> Some c \<in> set d4 \<and> Some c \<in> set d5 \<and> Some c \<in> set d6 \<longrightarrow>
      (\<exists>n1 n2 n3 n4 n5 n6.
         fired_trace cfg ch
           [(e1, f1, d1), (e2, f2, d2), (e3, f3, d3), (e4, f4, d4), (e5, f5, d5), (e6, f6, d6)] st
           = [n1, n2, n3, n4, n5, n6]
         \<and> c \<notin> set n1 \<and> c \<notin> set n2 \<and> c \<notin> set n3 \<and> c \<notin> set n4 \<and> c \<notin> set n5
         \<and> c \<in> set n6)"
    using gap_scenario [of e1 e2 e3 e4 e5 e6 cfg c st d1 d2 d3 d4 d5 d6 ch f1 f2 f3 f4 f5 f6]
    by blast
  from c d a b show ?thesis by (intro conjI)
qed

theorem counter_resets_on_absence_witness:
  "count_of (per_class_consecutive_frames
      (fst (doWork_frame cfg_only5 (env_at 3) 0 (frame_on 0) [Some 8]
         (ChannelState_init\<lparr>per_class_consecutive_frames := [5 \<mapsto> 2]\<rparr>)))) 5 = 0"
proof -
  have "tracked (trigger_classes cfg_only5) 5 \<and> Some 5 \<notin> set [Some (8::int)]"
    by (simp add: tracked_def cfg_only5_def SaveVideo_init_def)
  with conjunct1 [OF counter_resets_on_absence [where cfg = cfg_only5 and cid = 5
      and dets = "[Some 8]" and env = "env_at 3" and ch = 0 and frame = "frame_on 0"
      and st = "ChannelState_init\<lparr>per_class_consecutive_frames := [5 \<mapsto> 2]\<rparr>"]]
  show ?thesis by (rule mp)
qed

subsection \<open>Finalizing a session\<close>

lemma removed_files_append: "removed_files (xs @ ys) = removed_files xs @ removed_files ys"
  by (induction xs rule: removed_files.induct) simp_all

lemma snapshots_append: "snapshots (xs @ ys) = snapshots xs @ snapshots ys"
  by (induction xs rule: snapshots.induct) simp_all

lemma removed_files_PostAlarm: "removed_files (map (\<lambda>x. PostAlarm (a x) (b x) (c x) (d x) (e x)) xs) = []"
  by (induction xs) simp_all

lemma snapshots_PostAlarm: "snapshots (map (\<lambda>x. PostAlarm (a x) (b x) (c x) (d x) (e x)) xs) = []"
  by (induction xs) simp_all

lemma removed_files_appendFrame: "removed_files (appendFrame st frame) = []"
  by (simp add: appendFrame_def split: option.splits)

lemma removed_files_stopRecording: "removed_files (snd (stopRecording st)) = []"
  by (simp add: stopRecording_def)

lemma snapshots_startRecording: "snapshots (snd (snd (startRecording cfg env st frame p))) = []"
  by (simp add: startRecording_def Let_def split: open_result.splits)

text \<open>
  C4.  When a frame reaches the finalize block with a session open and its deadline passed,
  the calls made are: the frame's write, the writer's release, and then either the removal
  of the segment file, when the session has no pending event, or one report per pending
  event, in arrival order, each with the segment path and the event's snapshot, type and
  time.  So the segment file is removed if and only if the pending list is empty.
\<close>

theorem finalize_deletes_iff_no_events:
  assumes "session_inv st" and "recording st" and "record_end_tp st \<le> now_tp env"
  shows "snd (finalize_phase env ch frame st) =
           appendFrame st frame @ snd (stopRecording st) @
           (if pending_events st = [] then [RemoveFile (pending_video_path st)]
            else map (\<lambda>ev. PostAlarm ch (img_path ev) (pending_video_path st)
                              (datetime_str ev) (alarm_type ev))
                   (pending_events st))
         \<and> removed_files (snd (finalize_phase env ch frame st)) =
             (if pending_events st = [] then [pending_video_path st] else [])"
proof -
  from assms(1,2) have p: "pending_video_path st \<noteq> []"
    by (simp add: session_inv_def)
  have e: "snd (finalize_phase env ch frame st) =
           appendFrame st frame @ snd (stopRecording st) @
           (if pending_events st = [] then [RemoveFile (pending_video_path st)]
            else map (\<lambda>ev. PostAlarm ch (img_path ev) (pending_video_path st)
                              (datetime_str ev) (alarm_type ev))
                   (pending_events st))"
    using assms(2,3) p by (simp add: finalize_phase_def Let_def stopRecording_def)
  show ?thesis
    unfolding e
    by (simp add: removed_files_append removed_files_appendFrame removed_files_stopRecording
          removed_files_PostAlarm)
qed

theorem finalize_deletes_iff_no_events_witness:
  "snd (finalize_phase (env_at 12) 0 (frame_on 0) st_two_events) =
     [WriterWrite 1920 1080, WriterRelease,
      PostAlarm 0 ''/data/ch_0/20250101_120000_type5.jpg'' ''/data/ch_0/20250101_120000_type5.mp4''
        ''2025-01-01 12:00:00'' 5,
      PostAlarm 0 ''/data/ch_0/20250101_120003_cls7_type5.jpg'' ''/data/ch_0/20250101_120000_type5.mp4''
        ''2025-01-01 12:00:03'' 5]
   \<and> removed_files (snd (finalize_phase (env_at 12) 0 (frame_on 0) st_two_events)) = []
   \<and> removed_files (snd (finalize_phase (env_at 12) 0 (frame_on 0)
        (st_two_events\<lparr>pending_events := [], suppressed_classes := {}\<rparr>))) =
       [''/data/ch_0/20250101_120000_type5.mp4'']"
proof -
  have i1: "session_inv st_two_events"
    and i2: "session_inv (st_two_events\<lparr>pending_events := [], suppressed_classes := {}\<rparr>)"
    by (simp_all add: session_inv_def st_two_events_def ChannelState_init_def)
  have r: "recording st_two_events"
    "recording (st_two_events\<lparr>pending_events := [], suppressed_classes := {}\<rparr>)"
    by (simp_all add: st_two_events_def)
  have d: "record_end_tp st_two_events \<le> now_tp (env_at 12)"
    "record_end_tp (st_two_events\<lparr>pending_events := [], suppressed_classes := {}\<rparr>) \<le> now_tp (env_at 12)"
    by (simp_all add: st_two_events_def env_at_def seconds_def)
  show ?thesis
    using finalize_deletes_iff_no_events [OF i1 r(1) d(1), of 0 "frame_on 0"]
      finalize_deletes_iff_no_events [OF i2 r(2) d(2), of 0 "frame_on 0"]
    by (simp add: st_two_events_def ChannelState_init_def appendFrame_def stopRecording_def
          frame_image_def frame_on_def)
qed

text \<open>
  C9.  Finalizing changes the channel state in exactly four members: the session is closed
  (recording flag and writer) and the pending events and the suppressed set are emptied.
  The per-class counters are left alone, by the finalize block and by all of
  \<^verbatim>\<open>doWork\<close> after the counting; they carry over into the next session: a class seen in
  every frame fires once, keeps counting through the finalize and does not fire again.
\<close>

theorem finalize_keeps_counters:
  "(recording st \<and> record_end_tp st \<le> now_tp env \<longrightarrow>
      fst (finalize_phase env ch frame st) =
        st\<lparr>recording := False, writer := False, pending_events := [], suppressed_classes := {}\<rparr>
      \<and> per_class_consecutive_frames (fst (finalize_phase env ch frame st)) =
          per_class_consecutive_frames st)
   \<and> per_class_consecutive_frames (fst (doWork_frame cfg env ch frame dets st)) =
       per_class_consecutive_frames (fst (count_phase cfg env dets st))
   \<and> fired_trace cfg_data 0
        [(env_at 1, frame_on 0, [Some 5]), (env_at 12, frame_on 0, [Some 5]),
         (env_at 13, frame_on 0, [Some 5])] ChannelState_init = [[5], [], []]
   \<and> count_of (per_class_consecutive_frames (run_channel cfg_data 0
        [(env_at 1, frame_on 0, [Some 5]), (env_at 12, frame_on 0, [Some 5]),
         (env_at 13, frame_on 0, [Some 5])] ChannelState_init)) 5 = 3"
proof -
  have a: "recording st \<and> record_end_tp st \<le> now_tp env \<longrightarrow>
      fst (finalize_phase env ch frame st) =
        st\<lparr>recording := False, writer := False, pending_events := [], suppressed_classes := {}\<rparr>
      \<and> per_class_consecutive_frames (fst (finalize_phase env ch frame st)) =
          per_class_consecutive_frames st"
    by (simp add: finalize_phase_def Let_def stopRecording_def)
  have b: "fired_trace cfg_data 0
        [(env_at 1, frame_on 0, [Some 5]), (env_at 12, frame_on 0, [Some 5]),
         (env_at 13, frame_on 0, [Some 5])] ChannelState_init = [[5], [], []]"
    by code_simp
  have c: "count_of (per_class_consecutive_frames (run_channel cfg_data 0
        [(env_at 1, frame_on 0, [Some 5]), (env_at 12, frame_on 0, [Some 5]),
         (env_at 13, frame_on 0, [Some 5])] ChannelState_init)) 5 = 3"
    by code_simp
  show ?thesis
    using a b c doWork_frame_counters [of cfg env ch frame dets st] by blast
qed

theorem finalize_keeps_counters_witness:
  "per_class_consecutive_frames (fst (finalize_phase (env_at 12) 0 (frame_on 0) st_two_events)) 5 = Some 4
   \<and> per_class_consecutive_frames (fst (finalize_phase (env_at 12) 0 (frame_on 0) st_two_events)) 7 = Some 2
   \<and> pending_events (fst (finalize_phase (env_at 12) 0 (frame_on 0) st_two_events)) = []
   \<and> suppressed_classes (fst (finalize_phase (env_at 12) 0 (frame_on 0) st_two_events)) = {}"
proof -
  have "recording st_two_events \<and> record_end_tp st_two_events \<le> now_tp (env_at 12)"
    by (simp add: st_two_events_def env_at_def seconds_def)
  with finalize_keeps_counters [of st_two_events "env_at 12" 0 "frame_on 0" cfg_data "[]"]
  have "fst (finalize_phase (env_at 12) 0 (frame_on 0) st_two_events) =
      st_two_events\<lparr>recording := False, writer := False, pending_events := [], suppressed_classes := {}\<rparr>"
    by blast
  then show ?thesis by (simp add: st_two_events_def)
qed

subsection \<open>Opening a session\<close>

lemma startRecording_ok: "fst (startRecording cfg env st frame p) = open_succeeds env frame"
  by (auto simp: startRecording_def open_succeeds_def Let_def split: open_result.splits)

lemma finalize_phase_idle: "\<not> recording st \<Longrightarrow> finalize_phase env ch frame st = (st, [])"
  by (simp add: finalize_phase_def)

lemma snapshots_snapshot_loop_later:
  "0 < idx \<Longrightarrow>
   snapshots (snd (snapshot_loop (\<lambda>i c. if i = 0 then b else f c) dt rt idx cids st)) = map f cids"
  by (induction cids arbitrary: idx st) (simp_all add: Let_def)

lemma snapshots_snapshot_loop_first:
  "snapshots (snd (snapshot_loop (\<lambda>i c. if i = 0 then b else f c) dt rt 0 (c # cs) st)) =
     b # map f cs"
  by (simp add: Let_def snapshots_snapshot_loop_later)

lemma removed_files_snapshot_loop: "removed_files (snd (snapshot_loop img dt rt idx cids st)) = []"
  by (induction cids arbitrary: idx st) (simp_all add: Let_def)

lemma snapshots_appendFrame: "snapshots (appendFrame st frame) = []"
  by (simp add: appendFrame_def split: option.splits)

lemma snapshots_finalize_phase: "snapshots (snd (finalize_phase env ch frame st)) = []"
  by (simp add: finalize_phase_def Let_def stopRecording_def snapshots_append
        snapshots_appendFrame snapshots_PostAlarm)

lemma finalize_phase_path:
  "pending_video_path (fst (finalize_phase env ch frame st)) = pending_video_path st"
  by (simp add: finalize_phase_def Let_def stopRecording_def)

lemma doWork_frame_cta:
  "classes_to_add (fst (count_phase cfg env dets st)) (snd (count_phase cfg env dets st)) =
     snd (count_phase cfg env dets st)"
  by (rule classes_to_add_unsuppressed)
     (simp add: count_phase_fields count_phase_newly_unsuppressed)

lemma session_open_paths:
  assumes "\<not> recording st" and "open_succeeds env frame"
    and "fst (snd (doWork_frame cfg env ch frame dets st)) = c # cs"
  shows "pending_video_path (fst (doWork_frame cfg env ch frame dets st)) =
           base_path cfg ch (timestr env) (resolveType cfg dets) @ ''.mp4''
         \<and> snapshots (snd (snd (doWork_frame cfg env ch frame dets st))) =
           (base_path cfg ch (timestr env) (resolveType cfg dets) @ ''.jpg'')
           # map (\<lambda>cid. cls_img_path cfg ch (timestr env) cid (resolveType cfg dets)) cs"
proof -
  let ?c = "count_phase cfg env dets st"
  let ?b = "base_path cfg ch (timestr env) (resolveType cfg dets)"
  let ?r = "startRecording cfg env (fst ?c) frame (?b @ ''.mp4'')"
  let ?st1 = "(fst (snd ?r))\<lparr>pending_video_path := ?b @ ''.mp4'', pending_events := [],
                               suppressed_classes := {}\<rparr>"
  let ?r2 = "snapshot_loop
               (\<lambda>idx cid. if idx = 0 then ?b @ ''.jpg''
                           else cls_img_path cfg ch (timestr env) cid (resolveType cfg dets))
               (dtstr env) (resolveType cfg dets) 0 (c # cs) ?st1"
  from assms(3) have n: "snd ?c = c # cs" by (simp add: doWork_frame_newly)
  have cta: "classes_to_add (fst ?c) (c # cs) = c # cs"
    using doWork_frame_cta [of cfg env dets st] by (simp add: n)
  have r: "\<not> recording (fst ?c)" using assms(1) by (simp add: count_phase_fields)
  have s: "session_phase cfg env ch frame dets (snd ?c) (fst ?c) = (fst ?r2, snd (snd ?r) @ snd ?r2)"
    using r assms(2)
    by (simp add: session_phase_def Let_def cta n startRecording_ok del: snapshot_loop.simps)
  have p: "pending_video_path (fst ?r2) = ?b @ ''.mp4''"
    by (simp only: snapshot_loop_fields) simp
  have q: "snapshots (snd ?r2) =
      (?b @ ''.jpg'') # map (\<lambda>cid. cls_img_path cfg ch (timestr env) cid (resolveType cfg dets)) cs"
    by (rule snapshots_snapshot_loop_first)
  show ?thesis
    by (simp add: doWork_frame_def Let_def s finalize_phase_path p snapshots_append
          snapshots_finalize_phase snapshots_startRecording q del: snapshot_loop.simps)
qed

text \<open>
  C7.  What the code does when a session opens on channel \<open>ch\<close>: the segment is
  \<^verbatim>\<open>save_dir/ch_<ch>/<ts>_type<n>.mp4\<close>, the first class's snapshot is
  \<^verbatim>\<open>save_dir/ch_<ch>/<ts>_type<n>.jpg\<close> and the others are
  \<^verbatim>\<open>save_dir/ch_<ch>/<ts>_cls<id>_type<n>.jpg\<close>.  The directory is \<^verbatim>\<open>ch_\<close> followed by
  the channel id, not \<^verbatim>\<open>channel_\<close>.
\<close>

theorem session_paths_use_ch_prefix:
  assumes "\<not> recording st" and "open_succeeds env frame"
    and "fst (snd (doWork_frame cfg env ch frame dets st)) = c # cs"
  shows "pending_video_path (fst (doWork_frame cfg env ch frame dets st)) =
           path_append (path_append (save_dir cfg) (''ch_'' @ to_string ch))
             (timestr env @ ''_type'' @ to_string (resolveType cfg dets)) @ ''.mp4''
         \<and> snapshots (snd (snd (doWork_frame cfg env ch frame dets st))) =
           (path_append (path_append (save_dir cfg) (''ch_'' @ to_string ch))
              (timestr env @ ''_type'' @ to_string (resolveType cfg dets)) @ ''.jpg'')
           # map (\<lambda>cid. path_append (path_append (save_dir cfg) (''ch_'' @ to_string ch))
                    (timestr env @ ''_cls'' @ to_string cid @ ''_type''
                       @ to_string (resolveType cfg dets) @ ''.jpg'')) cs"
  using session_open_paths [OF assms]
  by (simp add: base_path_def cls_img_path_def channel_dir_def)

theorem session_paths_use_ch_prefix_witness:
  "pending_video_path (fst (doWork_frame cfg_data (env_at 1) 3 (frame_on 3) [Some 2, Some 4]
      ChannelState_init)) = ''/data/ch_3/20250101_120000_type2.mp4''
   \<and> snapshots (snd (snd (doWork_frame cfg_data (env_at 1) 3 (frame_on 3) [Some 2, Some 4]
      ChannelState_init))) =
     [''/data/ch_3/20250101_120000_type2.jpg'', ''/data/ch_3/20250101_120000_cls4_type2.jpg'']"
proof -
  have a: "\<not> recording ChannelState_init" by (simp add: ChannelState_init_def)
  have b: "open_succeeds (env_at 1) (frame_on 3)"
    by (simp add: open_succeeds_def env_at_def frame_on_def)
  have c: "fst (snd (doWork_frame cfg_data (env_at 1) 3 (frame_on 3) [Some 2, Some 4]
      ChannelState_init)) = 2 # [4]"
    by code_simp
  have p1: "path_append (path_append (save_dir cfg_data) (''ch_'' @ to_string 3))
             (timestr (env_at 1) @ ''_type'' @ to_string (resolveType cfg_data [Some 2, Some 4]))
             @ ''.mp4'' = ''/data/ch_3/20250101_120000_type2.mp4''"
    by code_simp
  have p2: "(path_append (path_append (save_dir cfg_data) (''ch_'' @ to_string 3))
              (timestr (env_at 1) @ ''_type'' @ to_string (resolveType cfg_data [Some 2, Some 4]))
              @ ''.jpg'')
           # map (\<lambda>cid. path_append (path_append (save_dir cfg_data) (''ch_'' @ to_string 3))
                    (timestr (env_at 1) @ ''_cls'' @ to_string cid @ ''_type''
                       @ to_string (resolveType cfg_data [Some 2, Some 4]) @ ''.jpg'')) [4]
           = [''/data/ch_3/20250101_120000_type2.jpg'', ''/data/ch_3/20250101_120000_cls4_type2.jpg'']"
    by code_simp
  show ?thesis
    using session_paths_use_ch_prefix [OF a b c] by (simp only: p1 p2)
qed

text \<open>
  C6 as the code has it.  When classes newly fire while no session is open and the
  recording cannot be opened, one snapshot is written, under the base name, and shared:
  the reporter is called once per newly fired class, in order, with that snapshot and an
  empty video path.  After the call the channel is not recording, has no pending event and
  no suppressed class.
\<close>

theorem open_failure_reports_shared_snapshot:
  assumes "\<not> recording st" and "\<not> open_succeeds env frame"
    and "fst (snd (doWork_frame cfg env ch frame dets st)) \<noteq> []"
  shows "snd (snd (doWork_frame cfg env ch frame dets st)) =
           snd (snd (startRecording cfg env (fst (count_phase cfg env dets st)) frame
                  (base_path cfg ch (timestr env) (resolveType cfg dets) @ ''.mp4'')))
           @ [SaveSnapshot (base_path cfg ch (timestr env) (resolveType cfg dets) @ ''.jpg'')]
           @ map (\<lambda>cid. PostAlarm ch (base_path cfg ch (timestr env) (resolveType cfg dets) @ ''.jpg'')
                           [] (dtstr env) (resolveType cfg dets))
               (fst (snd (doWork_frame cfg env ch frame dets st)))
         \<and> snapshots (snd (snd (doWork_frame cfg env ch frame dets st))) =
             [base_path cfg ch (timestr env) (resolveType cfg dets) @ ''.jpg'']
         \<and> \<not> recording (fst (doWork_frame cfg env ch frame dets st))
         \<and> pending_events (fst (doWork_frame cfg env ch frame dets st)) = []
         \<and> suppressed_classes (fst (doWork_frame cfg env ch frame dets st)) = {}"
proof -
  let ?c = "count_phase cfg env dets st"
  let ?p = "base_path cfg ch (timestr env) (resolveType cfg dets) @ ''.mp4''"
  from assms(3) have n: "snd ?c \<noteq> []" by (simp add: doWork_frame_newly)
  have r: "\<not> recording (fst ?c)" using assms(1) by (simp add: count_phase_fields)
  have r2: "\<not> recording (fst (snd (startRecording cfg env (fst ?c) frame ?p)))"
    using r assms(2) by (simp add: startRecording_recording startRecording_ok)
  have s: "session_phase cfg env ch frame dets (snd ?c) (fst ?c) =
      ((fst (snd (startRecording cfg env (fst ?c) frame ?p)))
         \<lparr>pending_video_path := ?p, pending_events := [], suppressed_classes := {}\<rparr>,
       snd (snd (startRecording cfg env (fst ?c) frame ?p))
         @ [SaveSnapshot (base_path cfg ch (timestr env) (resolveType cfg dets) @ ''.jpg'')]
         @ map (\<lambda>cid. PostAlarm ch (base_path cfg ch (timestr env) (resolveType cfg dets) @ ''.jpg'')
                         [] (dtstr env) (resolveType cfg dets)) (snd ?c))"
    using r n assms(2)
    by (simp add: session_phase_def Let_def doWork_frame_cta startRecording_ok)
  show ?thesis
    using r2
    by (simp add: doWork_frame_def Let_def s finalize_phase_idle snapshots_append
          snapshots_startRecording snapshots_PostAlarm)
qed

theorem open_failure_reports_shared_snapshot_witness:
  "snd (snd (doWork_frame cfg_data (env_open_fails 1) 3 (frame_on 3) [Some 2, Some 4]
      ChannelState_init)) =
     [WriterOpen ''/data/ch_3/20250101_120000_type2.mp4'' 25 1920 1080,
      SaveSnapshot ''/data/ch_3/20250101_120000_type2.jpg'',
      PostAlarm 3 ''/data/ch_3/20250101_120000_type2.jpg'' [] ''2025-01-01 12:00:00'' 2,
      PostAlarm 3 ''/data/ch_3/20250101_120000_type2.jpg'' [] ''2025-01-01 12:00:00'' 2]
   \<and> \<not> recording (fst (doWork_frame cfg_data (env_open_fails 1) 3 (frame_on 3) [Some 2, Some 4]
      ChannelState_init))
   \<and> suppressed_classes (fst (doWork_frame cfg_data (env_open_fails 1) 3 (frame_on 3)
      [Some 2, Some 4] ChannelState_init)) = {}"
proof -
  have a: "\<not> recording ChannelState_init" by (simp add: ChannelState_init_def)
  have b: "\<not> open_succeeds (env_open_fails 1) (frame_on 3)"
    by (simp add: open_succeeds_def env_open_fails_def env_at_def frame_on_def)
  have c: "fst (snd (doWork_frame cfg_data (env_open_fails 1) 3 (frame_on 3) [Some 2, Some 4]
      ChannelState_init)) \<noteq> []"
    by code_simp
  have d: "snd (snd (doWork_frame cfg_data (env_open_fails 1) 3 (frame_on 3) [Some 2, Some 4]
      ChannelState_init)) =
     [WriterOpen ''/data/ch_3/20250101_120000_type2.mp4'' 25 1920 1080,
      SaveSnapshot ''/data/ch_3/20250101_120000_type2.jpg'',
      PostAlarm 3 ''/data/ch_3/20250101_120000_type2.jpg'' [] ''2025-01-01 12:00:00'' 2,
      PostAlarm 3 ''/data/ch_3/20250101_120000_type2.jpg'' [] ''2025-01-01 12:00:00'' 2]"
    by code_simp
  show ?thesis
    using open_failure_reports_shared_snapshot [OF a b c] d by simp
qed

text \<open>
  C6 with one snapshot per class does not hold: two classes newly fire, the recording
  cannot be opened, and a single snapshot is written.
\<close>

theorem open_failure_one_snapshot_for_two_classes:
  "fst (snd (doWork_frame cfg_data (env_open_fails 1) 3 (frame_on 3) [Some 2, Some 4]
      ChannelState_init)) = [2, 4]
   \<and> snapshots (snd (snd (doWork_frame cfg_data (env_open_fails 1) 3 (frame_on 3)
        [Some 2, Some 4] ChannelState_init))) = [''/data/ch_3/20250101_120000_type2.jpg'']
   \<and> length (snapshots (snd (snd (doWork_frame cfg_data (env_open_fails 1) 3 (frame_on 3)
        [Some 2, Some 4] ChannelState_init))))
     \<noteq> length (fst (snd (doWork_frame cfg_data (env_open_fails 1) 3 (frame_on 3)
        [Some 2, Some 4] ChannelState_init)))"
  by code_simp

subsection \<open>Public URLs\<close>

lemma split_path_component:
  "CHR ''/'' \<notin> set c \<Longrightarrow> split_path acc c = (if acc @ c = [] then [] else [acc @ c])"
  by (induction c arbitrary: acc) auto

lemma split_path_slash:
  "split_path acc (xs @ CHR ''/'' # ys) = split_path acc xs @ split_path [] ys"
  by (induction xs arbitrary: acc) auto

lemma component_facts:
  assumes "component c"
  shows "c \<noteq> []" and "CHR ''/'' \<notin> set c" and "hd c \<noteq> CHR ''/''" and "last c \<noteq> CHR ''/''"
proof -
  from assms show ne: "c \<noteq> []" and ns: "CHR ''/'' \<notin> set c"
    by (simp_all add: component_def)
  from ne ns show "hd c \<noteq> CHR ''/''" by (metis hd_in_set)
  from ne ns show "last c \<noteq> CHR ''/''" by (metis last_in_set)
qed

lemma split_path_join:
  "list_all component rs \<Longrightarrow> split_path [] (join_path rs) = rs"
proof (induction rs rule: join_path.induct)
  case 1
  show ?case by simp
next
  case (2 x)
  then show ?case by (simp add: component_facts split_path_component)
next
  case (3 x y ys)
  from 3 have "split_path [] (x @ CHR ''/'' # join_path (y # ys)) = [x] @ (y # ys)"
    unfolding split_path_slash by (simp add: component_facts split_path_component)
  then show ?case by simp
qed

lemma join_path_last:
  "list_all component rs \<Longrightarrow> rs \<noteq> [] \<Longrightarrow>
   join_path rs \<noteq> [] \<and> last (join_path rs) \<noteq> CHR ''/''"
proof (induction rs rule: join_path.induct)
  case 1
  then show ?case by simp
next
  case (2 x)
  then show ?case by (simp add: component_facts)
next
  case (3 x y ys)
  then show ?case by simp
qed

lemma join_path_concat:
  "join_path (r # rs) = r @ concat (map ((#) CHR ''/'') rs)"
  by (induction rs arbitrary: r) simp_all

lemma path_append_component:
  assumes "component c" and "a \<noteq> []" and "last a \<noteq> CHR ''/''"
  shows "path_append a c = a @ CHR ''/'' # c"
  using assms component_facts [OF assms(1)] by (simp add: path_append_def)

lemma foldl_path_append:
  "list_all component rs \<Longrightarrow> a \<noteq> [] \<Longrightarrow> last a \<noteq> CHR ''/'' \<Longrightarrow>
   foldl path_append a rs = a @ concat (map ((#) CHR ''/'') rs)"
proof (induction rs arbitrary: a)
  case Nil
  show ?case by simp
next
  case (Cons r rs)
  from Cons.prems have c: "component r" and cs: "list_all component rs" by simp_all
  have p: "path_append a r = a @ CHR ''/'' # r"
    using c Cons.prems(2,3) by (rule path_append_component)
  have l: "last (a @ CHR ''/'' # r) \<noteq> CHR ''/''"
    using component_facts [OF c] by simp
  have "foldl path_append (a @ CHR ''/'' # r) rs = (a @ CHR ''/'' # r) @ concat (map ((#) CHR ''/'') rs)"
    using cs l by (intro Cons.IH) simp_all
  then show ?case by (simp add: p)
qed

lemma foldl_path_append_join:
  assumes "list_all component rs" and "rs \<noteq> []"
  shows "foldl path_append [] rs = join_path rs"
proof -
  from assms(2) obtain r rs' where rs: "rs = r # rs'" by (cases rs) auto
  from assms(1) rs have c: "component r" and cs: "list_all component rs'" by simp_all
  have s: "path_append [] r = r" by (simp add: path_append_def)
  have "foldl path_append r rs' = r @ concat (map ((#) CHR ''/'') rs')"
    using cs component_facts [OF c] by (intro foldl_path_append) simp_all
  then show ?thesis by (simp add: rs s join_path_concat)
qed

lemma drop_common_prefix: "drop_common (xs @ ys) xs = (ys, [])"
proof (induction xs)
  case Nil
  show ?case by (cases ys) simp_all
next
  case (Cons x xs)
  then show ?case by simp
qed

lemma elements_under:
  assumes sd: "sd \<noteq> []" "last sd \<noteq> CHR ''/''"
    and rs: "list_all component rs" "rs \<noteq> []"
  shows "elements (sd @ CHR ''/'' # join_path rs) = elements sd @ rs"
    and "is_absolute (sd @ CHR ''/'' # join_path rs) = is_absolute sd"
proof -
  have j: "join_path rs \<noteq> []" "last (join_path rs) \<noteq> CHR ''/''"
    using join_path_last [OF rs] by simp_all
  show a: "is_absolute (sd @ CHR ''/'' # join_path rs) = is_absolute sd"
    using sd(1) by (simp add: is_absolute_def)
  have f: "split_path [] (sd @ CHR ''/'' # join_path rs) = split_path [] sd @ rs"
    unfolding split_path_slash by (simp add: split_path_join [OF rs(1)])
  have l: "last (sd @ CHR ''/'' # join_path rs) \<noteq> CHR ''/''"
    using j by simp
  show "elements (sd @ CHR ''/'' # join_path rs) = elements sd @ rs"
    unfolding elements_def a f using l sd(2) by simp
qed

lemma lexically_relative_under:
  assumes sd: "sd \<noteq> []" "last sd \<noteq> CHR ''/''"
    and rs: "list_all component rs" "rs \<noteq> []"
  shows "lexically_relative (sd @ CHR ''/'' # join_path rs) sd = join_path rs"
proof -
  from rs obtain r rs' where r: "rs = r # rs'" "component r" by (cases rs) auto
  then have h: "hd rs \<noteq> []" by (simp add: component_facts)
  have c: "climb [] = 0" by (simp add: climb_def)
  show ?thesis
    unfolding lexically_relative_def elements_under [OF sd rs] drop_common_prefix
    using rs(2) h by (simp add: c foldl_path_append_join [OF rs])
qed

lemma url_separator: "(if last b = CHR ''/'' then b @ r else b @ ''/'' @ r)
    = b @ (if last b = CHR ''/'' then [] else ''/'') @ r"
  by simp

text \<open>
  C8 as the code has it.  With an empty base URL \<^verbatim>\<open>makeUrl\<close> returns the path unchanged.
  Otherwise it returns the base URL, a \<^verbatim>\<open>/\<close> unless the base ends with one, and then:
  the path unchanged when the storage root is empty or \<^verbatim>\<open>fs::relative\<close> throws, else the
  path relative to the storage root as \<^verbatim>\<open>fs::relative\<close> gives it.  For a file below the
  root, both in canonical form, that is the file's path inside the root; the
  specification's example yields \<^verbatim>\<open>http://x/files/a/b.jpg\<close>.
\<close>

theorem makeUrl_construction:
  "(base_file_url cfg = [] \<longrightarrow> makeUrl wc cfg p = p)
   \<and> (base_file_url cfg \<noteq> [] \<and> save_dir cfg = [] \<longrightarrow>
        makeUrl wc cfg p =
          base_file_url cfg @ (if last (base_file_url cfg) = CHR ''/'' then [] else ''/'') @ p)
   \<and> (base_file_url cfg \<noteq> [] \<and> save_dir cfg \<noteq> [] \<and> (wc p = None \<or> wc (save_dir cfg) = None) \<longrightarrow>
        makeUrl wc cfg p =
          base_file_url cfg @ (if last (base_file_url cfg) = CHR ''/'' then [] else ''/'') @ p)
   \<and> (base_file_url cfg \<noteq> [] \<and> save_dir cfg \<noteq> [] \<and> wc p = Some p' \<and> wc (save_dir cfg) = Some sd' \<longrightarrow>
        makeUrl wc cfg p =
          base_file_url cfg @ (if last (base_file_url cfg) = CHR ''/'' then [] else ''/'')
            @ lexically_relative p' sd')
   \<and> (base_file_url cfg \<noteq> [] \<and> save_dir cfg \<noteq> [] \<and> last (save_dir cfg) \<noteq> CHR ''/''
        \<and> list_all component rs \<and> rs \<noteq> []
        \<and> wc (save_dir cfg) = Some (save_dir cfg)
        \<and> wc (save_dir cfg @ ''/'' @ join_path rs) = Some (save_dir cfg @ ''/'' @ join_path rs) \<longrightarrow>
        makeUrl wc cfg (save_dir cfg @ ''/'' @ join_path rs) =
          base_file_url cfg @ (if last (base_file_url cfg) = CHR ''/'' then [] else ''/'')
            @ join_path rs)
   \<and> (wc ''/data'' = Some ''/data'' \<and> wc ''/data/a/b.jpg'' = Some ''/data/a/b.jpg'' \<longrightarrow>
        makeUrl wc (SaveVideo_init\<lparr>base_file_url := ''http://x/files'', save_dir := ''/data''\<rparr>)
          ''/data/a/b.jpg'' = ''http://x/files/a/b.jpg'')
   \<and> makeUrl wc (SaveVideo_init\<lparr>save_dir := ''/data''\<rparr>) ''/data/a/b.jpg'' = ''/data/a/b.jpg''"
proof -
  let ?sep = "if last (base_file_url cfg) = CHR ''/'' then [] else ''/''"
  have a: "base_file_url cfg = [] \<longrightarrow> makeUrl wc cfg p = p"
    by (simp add: makeUrl_def)
  have b: "base_file_url cfg \<noteq> [] \<and> save_dir cfg = [] \<longrightarrow>
        makeUrl wc cfg p = base_file_url cfg @ ?sep @ p"
    by (simp add: makeUrl_def)
  have c: "base_file_url cfg \<noteq> [] \<and> save_dir cfg \<noteq> [] \<and> (wc p = None \<or> wc (save_dir cfg) = None) \<longrightarrow>
        makeUrl wc cfg p = base_file_url cfg @ ?sep @ p"
    by (auto simp: makeUrl_def fs_relative_def split: option.splits)
  have d: "base_file_url cfg \<noteq> [] \<and> save_dir cfg \<noteq> [] \<and> wc p = Some p' \<and> wc (save_dir cfg) = Some sd' \<longrightarrow>
        makeUrl wc cfg p = base_file_url cfg @ ?sep @ lexically_relative p' sd'"
    by (simp add: makeUrl_def fs_relative_def)
  have e: "base_file_url cfg \<noteq> [] \<and> save_dir cfg \<noteq> [] \<and> last (save_dir cfg) \<noteq> CHR ''/''
        \<and> list_all component rs \<and> rs \<noteq> []
        \<and> wc (save_dir cfg) = Some (save_dir cfg)
        \<and> wc (save_dir cfg @ ''/'' @ join_path rs) = Some (save_dir cfg @ ''/'' @ join_path rs) \<longrightarrow>
        makeUrl wc cfg (save_dir cfg @ ''/'' @ join_path rs) =
          base_file_url cfg @ ?sep @ join_path rs"
    by (simp add: makeUrl_def fs_relative_def lexically_relative_under)
  have l: "lexically_relative ''/data/a/b.jpg'' ''/data'' = ''a/b.jpg''"
    by code_simp
  have f: "wc ''/data'' = Some ''/data'' \<and> wc ''/data/a/b.jpg'' = Some ''/data/a/b.jpg'' \<longrightarrow>
        makeUrl wc (SaveVideo_init\<lparr>base_file_url := ''http://x/files'', save_dir := ''/data''\<rparr>)
          ''/data/a/b.jpg'' = ''http://x/files/a/b.jpg''"
    by (simp add: makeUrl_def fs_relative_def l)
  have g: "makeUrl wc (SaveVideo_init\<lparr>save_dir := ''/data''\<rparr>) ''/data/a/b.jpg'' = ''/data/a/b.jpg''"
    by (simp add: makeUrl_def SaveVideo_init_def)
  from a b c d e f g show ?thesis by (intro conjI)
qed

theorem makeUrl_construction_witness:
  "makeUrl fs_plain
     (SaveVideo_init\<lparr>base_file_url := ''http://x/files/'', save_dir := ''/srv/store''\<rparr>)
     (''/srv/store'' @ ''/'' @ join_path [''ch_3'', ''20250101_120000_type2.mp4'']) =
   ''http://x/files/ch_3/20250101_120000_type2.mp4''
   \<and> makeUrl fs_plain
        (SaveVideo_init\<lparr>base_file_url := ''http://x/files'', save_dir := ''/data''\<rparr>)
        ''/data/a/b.jpg'' = ''http://x/files/a/b.jpg''"
proof -
  let ?cfg = "SaveVideo_init\<lparr>base_file_url := ''http://x/files/'', save_dir := ''/srv/store''\<rparr>"
  let ?rs = "[''ch_3'', ''20250101_120000_type2.mp4'']"
  have h: "base_file_url ?cfg \<noteq> [] \<and> save_dir ?cfg \<noteq> [] \<and> last (save_dir ?cfg) \<noteq> CHR ''/''
        \<and> list_all component ?rs \<and> ?rs \<noteq> []
        \<and> fs_plain (save_dir ?cfg) = Some (save_dir ?cfg)
        \<and> fs_plain (save_dir ?cfg @ ''/'' @ join_path ?rs) = Some (save_dir ?cfg @ ''/'' @ join_path ?rs)"
    by (simp add: component_def fs_plain_def)
  have v: "base_file_url ?cfg @ (if last (base_file_url ?cfg) = CHR ''/'' then [] else ''/'')
            @ join_path ?rs = ''http://x/files/ch_3/20250101_120000_type2.mp4''"
    by simp
  have t: "makeUrl fs_plain ?cfg (save_dir ?cfg @ ''/'' @ join_path ?rs)
      = base_file_url ?cfg @ (if last (base_file_url ?cfg) = CHR ''/'' then [] else ''/'')
            @ join_path ?rs"
    by (rule mp [OF conjunct1 [OF conjunct2 [OF conjunct2 [OF conjunct2 [OF conjunct2
          [OF makeUrl_construction]]]]] h])
  have h2: "fs_plain ''/data'' = Some ''/data'' \<and> fs_plain ''/data/a/b.jpg'' = Some ''/data/a/b.jpg''"
    by (simp add: fs_plain_def)
  have t2: "makeUrl fs_plain
        (SaveVideo_init\<lparr>base_file_url := ''http://x/files'', save_dir := ''/data''\<rparr>)
        ''/data/a/b.jpg'' = ''http://x/files/a/b.jpg''"
    by (rule mp [OF conjunct1 [OF conjunct2 [OF conjunct2 [OF conjunct2 [OF conjunct2
          [OF conjunct2 [OF makeUrl_construction]]]]]] h2])
  from t v have t1: "makeUrl fs_plain ?cfg (save_dir ?cfg @ ''/'' @ join_path ?rs)
      = ''http://x/files/ch_3/20250101_120000_type2.mp4''"
    by (rule trans)
  have sd: "save_dir ?cfg = ''/srv/store''" by simp
  from t1 t2 show ?thesis unfolding sd by (rule conjI)
qed

text \<open>
  C8 with the relative path in every case does not hold: with an empty storage root, or
  when \<^verbatim>\<open>fs::relative\<close> throws, the whole absolute path follows the base URL.
\<close>

theorem makeUrl_appends_absolute_path:
  "makeUrl fs_plain (SaveVideo_init\<lparr>base_file_url := ''http://x/files''\<rparr>) ''/data/a/b.jpg''
     = ''http://x/files//data/a/b.jpg''
   \<and> makeUrl fs_denied
        (SaveVideo_init\<lparr>base_file_url := ''http://x/files'', save_dir := ''/data''\<rparr>)
        ''/data/a/b.jpg'' = ''http://x/files//data/a/b.jpg''
   \<and> lexically_relative ''/data/a/b.jpg'' ''/data'' = ''a/b.jpg''"
  by code_simp

subsection \<open>Endpoint parsing and alarm posting\<close>

lemma strip_prefix_Some: "strip_prefix p s = Some r \<longleftrightarrow> s = p @ r"
proof
  assume "strip_prefix p s = Some r"
  then have "take (length p) s = p" and "r = drop (length p) s"
    by (auto simp: strip_prefix_def split: if_splits)
  then show "s = p @ r" by (metis append_take_drop_id)
next
  assume "s = p @ r"
  then show "strip_prefix p s = Some r" by (simp add: strip_prefix_def)
qed

lemma match_scheme_Some:
  assumes "match_scheme url = Some (sch, r)"
  shows "url = sch @ ''://'' @ r \<and> (sch = ''http'' \<or> sch = ''https'')"
proof (cases "strip_prefix ''http://'' url")
  case (Some x)
  with assms have "sch = ''http''" "x = r" by (simp_all add: match_scheme_def)
  with Some show ?thesis by (simp add: strip_prefix_Some)
next
  case None
  with assms obtain x where x: "strip_prefix ''https://'' url = Some x"
    by (auto simp: match_scheme_def split: option.splits)
  with None assms have "sch = ''https''" "x = r" by (simp_all add: match_scheme_def)
  with x show ?thesis by (simp add: strip_prefix_Some)
qed

lemma match_scheme_http: "match_scheme (''http://'' @ r) = Some (''http'', r)"
  by (simp add: match_scheme_def strip_prefix_def)

lemma match_scheme_https: "match_scheme (''https://'' @ r) = Some (''https'', r)"
  by (simp add: match_scheme_def strip_prefix_def)

lemma parseUrl_shape:
  assumes "parseUrl u \<noteq> Inr None"
  shows "url_shape u"
proof -
  from assms obtain sch r where ms: "match_scheme u = Some (sch, r)"
    by (cases "match_scheme u") (auto simp: parseUrl_def)
  from match_scheme_Some [OF ms]
  have u: "u = sch @ ''://'' @ r" and sch: "sch = ''http'' \<or> sch = ''https''" by simp_all
  let ?h = "takeWhile host_char r"
  let ?r1 = "dropWhile host_char r"
  have r: "r = ?h @ ?r1" by simp
  have hall: "list_all host_char ?h"
    by (simp add: list_all_iff) (meson set_takeWhileD)
  from assms ms have hne: "?h \<noteq> []"
    by (auto simp: parseUrl_def Let_def)
  show ?thesis
  proof (cases "?r1 \<noteq> [] \<and> hd ?r1 = CHR '':''")
    case True
    let ?ds = "takeWhile is_digit (tl ?r1)"
    let ?r2 = "dropWhile is_digit (tl ?r1)"
    from True have r1: "?r1 = CHR '':'' # ?ds @ ?r2"
      by (cases ?r1) simp_all
    from assms ms hne True have d: "?ds \<noteq> []" and mp: "match_path ?r2"
      by (auto simp: parseUrl_def Let_def split: if_splits)
    have dall: "list_all is_digit ?ds"
      by (simp add: list_all_iff) (meson set_takeWhileD)
    have "u = sch @ ''://'' @ ?h @ (CHR '':'' # ?ds) @ ?r2"
      using u r r1 by (metis append_Cons append_assoc)
    with sch hne hall d dall mp show ?thesis
      unfolding url_shape_def by blast
  next
    case False
    from assms ms hne False have mp: "match_path ?r1"
      by (auto simp: parseUrl_def Let_def split: if_splits)
    have "u = sch @ ''://'' @ ?h @ [] @ ?r1"
      using u r by simp
    with sch hne hall mp show ?thesis
      unfolding url_shape_def by blast
  qed
qed

lemma match_path_Cons: "match_path p \<Longrightarrow> \<exists>p'. p = CHR ''/'' # p'"
  by (cases p) (simp_all add: match_path_def)

lemma parseUrl_no_port:
  assumes "h \<noteq> []" and "\<And>x. x \<in> set h \<Longrightarrow> host_char x" and "match_path (CHR ''/'' # p')"
    and "match_scheme u = Some (sch, h @ CHR ''/'' # p')"
  shows "parseUrl u =
           Inr (Some \<lparr>scheme = sch, host = h, port = (if sch = ''https'' then 443 else 80),
                      path = CHR ''/'' # p'\<rparr>)"
proof -
  have t: "takeWhile host_char (h @ CHR ''/'' # p') = h"
    using assms(2) by (simp add: takeWhile_append2 host_char_def)
  have d: "dropWhile host_char (h @ CHR ''/'' # p') = CHR ''/'' # p'"
    using assms(2) by (simp add: dropWhile_append2 host_char_def)
  show ?thesis
    unfolding parseUrl_def assms(4) by (simp add: Let_def t d assms(1,3))
qed

lemma parseUrl_with_port:
  assumes "h \<noteq> []" and "\<And>x. x \<in> set h \<Longrightarrow> host_char x" and "match_path (CHR ''/'' # p')"
    and "ds \<noteq> []" and "\<And>x. x \<in> set ds \<Longrightarrow> is_digit x"
    and "match_scheme u = Some (sch, h @ CHR '':'' # ds @ CHR ''/'' # p')"
  shows "parseUrl u =
           (case stoi ds of
              Inl e \<Rightarrow> Inl e
            | Inr n \<Rightarrow> Inr (Some \<lparr>scheme = sch, host = h, port = n, path = CHR ''/'' # p'\<rparr>))"
proof -
  have t: "takeWhile host_char (h @ CHR '':'' # ds @ CHR ''/'' # p') = h"
    using assms(2) by (simp add: takeWhile_append2 host_char_def)
  have d: "dropWhile host_char (h @ CHR '':'' # ds @ CHR ''/'' # p') = CHR '':'' # ds @ CHR ''/'' # p'"
    using assms(2) by (simp add: dropWhile_append2 host_char_def)
  have t2: "takeWhile is_digit (ds @ CHR ''/'' # p') = ds"
    using assms(5) by (simp add: takeWhile_append2 is_digit_def)
  have d2: "dropWhile is_digit (ds @ CHR ''/'' # p') = CHR ''/'' # p'"
    using assms(5) by (simp add: dropWhile_append2 is_digit_def)
  show ?thesis
    unfolding parseUrl_def assms(6)
    by (simp add: Let_def t d t2 d2 assms(1,3,4) split: sum.splits)
qed

lemma url_shape_parse:
  assumes "url_shape u"
  shows "parseUrl u \<noteq> Inr None"
proof -
  from assms obtain sch h pt p where
    u: "u = sch @ ''://'' @ h @ pt @ p" and sch: "sch = ''http'' \<or> sch = ''https''"
    and hne: "h \<noteq> []" and hall: "list_all host_char h"
    and pt: "pt = [] \<or> (\<exists>ds. pt = CHR '':'' # ds \<and> ds \<noteq> [] \<and> list_all is_digit ds)"
    and mp: "match_path p"
    unfolding url_shape_def by blast
  from mp obtain p' where p: "p = CHR ''/'' # p'" using match_path_Cons by blast
  have mp': "match_path (CHR ''/'' # p')" using mp p by simp
  have ms: "match_scheme u = Some (sch, h @ pt @ p)"
    using sch u match_scheme_http [of "h @ pt @ p"] match_scheme_https [of "h @ pt @ p"]
    by auto
  have hp: "\<And>x. x \<in> set h \<Longrightarrow> host_char x" using hall by (simp add: list_all_iff)
  show ?thesis
  proof (cases "pt = []")
    case True
    from ms have "match_scheme u = Some (sch, h @ CHR ''/'' # p')" by (simp add: True p)
    from parseUrl_no_port [OF hne hp mp' this] show ?thesis by simp
  next
    case False
    with pt obtain ds where ds: "pt = CHR '':'' # ds" "ds \<noteq> []" "list_all is_digit ds"
      by blast
    have dp: "\<And>x. x \<in> set ds \<Longrightarrow> is_digit x" using ds(3) by (simp add: list_all_iff)
    from ms have "match_scheme u = Some (sch, h @ CHR '':'' # ds @ CHR ''/'' # p')"
      by (simp add: ds p)
    from parseUrl_with_port [OF hne hp mp' ds(2) dp this] show ?thesis
      by (simp split: sum.splits)
  qed
qed

lemma url_shape_Nil: "\<not> url_shape []"
  by (simp add: url_shape_def)

lemma init_steps_endpoint:
  "endpoint (init_trigger_classes tc s) = endpoint s"
  "endpoint (init_min_trigger_frames mtf s) = endpoint s"
  "endpoint (init_type tv s) = endpoint s"
  "endpoint (init_video_url_field v s) = endpoint s"
  by (simp_all add: init_trigger_classes_def init_min_trigger_frames_def init_type_def
        init_video_url_field_def
      split: option.splits trigger_classes_json.splits min_trigger_frames_json.splits
        type_json.splits)

lemma initInternal_without_endpoint:
  assumes "c_save_dir cfg = Some dir"
    and "parseUrl (or_keep (c_server_url cfg) (server_url s)) = Inr None"
  shows "\<exists>s'. initInternal (Some cfg) s = Inr s' \<and> endpoint s' = None"
proof -
  obtain s' where s': "initInternal (Some cfg) s = Inr s'"
    using assms by (simp add: initInternal_def Let_def)
  then have "endpoint s' = None"
    using assms by (auto simp: initInternal_def Let_def init_steps_endpoint split: if_splits)
  with s' show ?thesis by blast
qed

text \<open>
  C10.  A string has the shape \<^verbatim>\<open>scheme://host[:port]/path\<close> exactly when \<^verbatim>\<open>parseUrl\<close>
  does not return \<^verbatim>\<open>nullopt\<close>.  When \<^verbatim>\<open>server_url\<close> is missing (on a fresh element) or
  has not that shape, and \<^verbatim>\<open>save_dir\<close> is configured, \<^verbatim>\<open>initInternal\<close> succeeds, the
  endpoint is absent, and \<^verbatim>\<open>postAlarm\<close> sends nothing, whatever its arguments.
\<close>

theorem unparsable_url_disables_alarms:
  "(parseUrl u = Inr None \<longleftrightarrow> \<not> url_shape u)
   \<and> (c_save_dir cfg \<noteq> None
        \<and> (c_server_url cfg = None \<and> server_url s = []
             \<or> (\<exists>v. c_server_url cfg = Some v \<and> \<not> url_shape v)) \<longrightarrow>
       (\<exists>s'. initInternal (Some cfg) s = Inr s' \<and> endpoint s' = None
              \<and> postAlarm wc s' ch img vid dt ty = []))"
proof -
  have a: "parseUrl u = Inr None \<longleftrightarrow> \<not> url_shape u"
    using parseUrl_shape [of u] url_shape_parse [of u] by blast
  have b: "\<exists>s'. initInternal (Some cfg) s = Inr s' \<and> endpoint s' = None
              \<and> postAlarm wc s' ch img vid dt ty = []"
    if d: "c_save_dir cfg \<noteq> None"
      and v: "c_server_url cfg = None \<and> server_url s = []
             \<or> (\<exists>v. c_server_url cfg = Some v \<and> \<not> url_shape v)"
  proof -
    from d obtain dir where dir: "c_save_dir cfg = Some dir" by auto
    from v have "\<not> url_shape (or_keep (c_server_url cfg) (server_url s))"
      by (auto simp: or_keep_def url_shape_Nil)
    then have "parseUrl (or_keep (c_server_url cfg) (server_url s)) = Inr None"
      using parseUrl_shape by blast
    from initInternal_without_endpoint [OF dir this]
    obtain s' where s': "initInternal (Some cfg) s = Inr s'" "endpoint s' = None" by blast
    then have "postAlarm wc s' ch img vid dt ty = []" by (simp add: postAlarm_def)
    with s' show ?thesis by blast
  qed
  from a b show ?thesis by blast
qed

theorem unparsable_url_disables_alarms_witness:
  "(\<exists>s'. initInternal (Some (Configure_data\<lparr>c_server_url := Some ''10.0.0.7:8080/alarm''\<rparr>))
            SaveVideo_init = Inr s'
         \<and> endpoint s' = None
         \<and> postAlarm fs_plain s' 0 ''/data/ch_0/a.jpg'' ''/data/ch_0/a.mp4''
             ''2025-01-01 12:00:00'' 1 = [])
   \<and> (\<exists>s'. initInternal (Some Configure_data) SaveVideo_init = Inr s'
         \<and> endpoint s' = None
         \<and> postAlarm fs_plain s' 0 ''/data/ch_0/a.jpg'' ''/data/ch_0/a.mp4''
             ''2025-01-01 12:00:00'' 1 = [])"
proof -
  have p: "parseUrl ''10.0.0.7:8080/alarm'' = Inr None"
    by (simp add: parseUrl_def match_scheme_def strip_prefix_def)
  have n: "\<not> url_shape ''10.0.0.7:8080/alarm''"
    using p url_shape_parse by blast
  let ?cfg = "Configure_data\<lparr>c_server_url := Some ''10.0.0.7:8080/alarm''\<rparr>"
  have s1: "c_save_dir ?cfg \<noteq> None" and u1: "c_server_url ?cfg = Some ''10.0.0.7:8080/alarm''"
    by (simp_all add: Configure_data_def Configure_empty_def)
  have h1: "c_save_dir ?cfg \<noteq> None
        \<and> (c_server_url ?cfg = None \<and> server_url SaveVideo_init = []
             \<or> (\<exists>v. c_server_url ?cfg = Some v \<and> \<not> url_shape v))"
    using s1 u1 n by blast
  have s2: "c_save_dir Configure_data \<noteq> None" and u2: "c_server_url Configure_data = None"
    and e2: "server_url SaveVideo_init = []"
    by (simp_all add: Configure_data_def Configure_empty_def SaveVideo_init_def)
  have h2: "c_save_dir Configure_data \<noteq> None
        \<and> (c_server_url Configure_data = None \<and> server_url SaveVideo_init = []
             \<or> (\<exists>v. c_server_url Configure_data = Some v \<and> \<not> url_shape v))"
    using s2 u2 e2 by blast
  have w1: "\<exists>s'. initInternal (Some ?cfg) SaveVideo_init = Inr s' \<and> endpoint s' = None
         \<and> postAlarm fs_plain s' 0 ''/data/ch_0/a.jpg'' ''/data/ch_0/a.mp4''
             ''2025-01-01 12:00:00'' 1 = []"
    by (rule mp [OF conjunct2 [OF unparsable_url_disables_alarms] h1])
  have w2: "\<exists>s'. initInternal (Some Configure_data) SaveVideo_init = Inr s' \<and> endpoint s' = None
         \<and> postAlarm fs_plain s' 0 ''/data/ch_0/a.jpg'' ''/data/ch_0/a.mp4''
             ''2025-01-01 12:00:00'' 1 = []"
    by (rule mp [OF conjunct2 [OF unparsable_url_disables_alarms] h2])
  from w1 w2 show ?thesis by (rule conjI)
qed

subsection \<open>The quota pass\<close>

text \<open>Conversion to binary64 is exact below \<open>2^53\<close> and rounds above.\<close>

lemma to_double_exact: "n < 2 ^ 53 \<Longrightarrow> to_double n = real n"
  by (simp add: to_double_def)

lemma bit_length_example: "bit_length 9007199254740993 = 54"
  by (simp add: bit_length.simps)

lemma to_double_rounds: "to_double 9007199254740993 = 9007199254740992"
  by (simp add: to_double_def bit_length_example Let_def)

lemma to_gb_gibibytes:
  "to_gb 3221225472 = 3" "to_gb 2147483648 = 2" "to_gb 1073741824 = 1"
  by (simp_all add: to_gb_def to_double_def)

text \<open>
  A scanned total of \<open>2^53 + 1\<close> bytes converts to \<open>2^53\<close>, which is \<open>2^23\<close> gibibytes:
  against a quota of \<open>2^23\<close> the comparison of line 704 fails and nothing is deleted.
\<close>

lemma quota_pass_rounds_to_quota:
  "quota_pass tie (SaveVideo_init\<lparr>retention_max_gb := 8388608\<rparr>) sn rf
     (Some [\<lparr>entry_path = ''/data/ch_0/a.mp4'', is_regular_file = True,
             file_size = Some 9007199254740993, last_write_time = Some 10\<rparr>])
   = (9007199254740993, [])"
proof -
  have g: "to_gb 9007199254740993 = 8388608"
    by (simp add: to_gb_def to_double_rounds)
  show ?thesis
    by (simp add: quota_pass_def media_file_def extension_def filename_def g)
qed

text \<open>
  The sort returns the elements it was given, by non-decreasing time; and every
  arrangement by non-decreasing time is an outcome of it.
\<close>

lemma insert_by_mset: "mset (insert_by lt x ys) = add_mset x (mset ys)"
  by (induction ys) simp_all

lemma sort_by_mset: "mset (sort_by lt xs) = mset xs"
  by (induction xs) (simp_all add: insert_by_mset)

lemma insert_by_set: "set (insert_by lt x ys) = insert x (set ys)"
  by (induction ys) auto

lemma insert_by_older_sorted:
  "sorted (map snd ys) \<Longrightarrow> sorted (map snd (insert_by older x ys))"
  by (induction ys) (auto simp: older_def insert_by_set)

lemma sort_by_older_sorted: "sorted (map snd (sort_by older xs))"
  by (induction xs) (simp_all add: insert_by_older_sorted)

lemma sort_by_older_fixes: "sorted (map snd ys) \<Longrightarrow> sort_by older ys = ys"
proof (induction ys)
  case Nil
  show ?case by simp
next
  case (Cons y ys)
  then have s: "sort_by older ys = ys" and le: "\<forall>z \<in> set ys. snd y \<le> snd z"
    by simp_all
  from le have "insert_by older y ys = y # ys"
    by (cases ys) (auto simp: older_def)
  with s show ?case by simp
qed

lemma std_sort_sorted: "sorted (map snd (std_sort tie older xs))"
  by (simp add: std_sort_def sort_by_older_sorted)

lemma std_sort_mset: "rearranges tie \<Longrightarrow> mset (std_sort tie older xs) = mset xs"
  by (simp add: std_sort_def sort_by_mset rearranges_def)

lemma std_sort_any_outcome:
  assumes "sorted (map snd ys)" and "mset ys = mset xs"
  shows "\<exists>tie. rearranges tie \<and> std_sort tie older xs = ys"
proof -
  let ?tie = "\<lambda>fs. if mset fs = mset ys then ys else fs"
  have "rearranges ?tie" by (simp add: rearranges_def)
  moreover have "std_sort ?tie older xs = ys"
    using assms by (simp add: std_sort_def sort_by_older_fixes)
  ultimately show ?thesis by blast
qed

lemma saturating_sub_unat:
  "unat (if sz > t then 0 else t - sz :: 64 word) = unat t - unat sz"
proof (cases "sz > t")
  case True
  then have "unat t < unat sz" by (simp add: word_less_nat_alt)
  with True show ?thesis by simp
next
  case False
  then have "sz \<le> t" by simp
  then have "unat (t - sz) = unat t - unat sz" by (rule unat_sub)
  with False show ?thesis by simp
qed

lemma decrement_total_le: "unat (decrement_total sn rf t p) \<le> unat t"
  using saturating_sub_unat [where sz = "sn p" and t = t]
  by (simp add: decrement_total_def Let_def)

lemma decrement_total_removed:
  assumes "\<not> rf p"
  shows "unat (decrement_total sn rf t p) = unat t - unat (sn p)"
proof (cases "sn p > 0")
  case True
  with assms show ?thesis
    using saturating_sub_unat [where sz = "sn p" and t = t]
    by (simp add: decrement_total_def Let_def)
next
  case False
  then have "sn p = 0" by (simp add: word_neq_0_conv [symmetric])
  then show ?thesis by (simp add: decrement_total_def)
qed

lemma delete_loop_stop:
  "to_gb (decrement_total sn rf t (fst f)) \<le> q \<Longrightarrow>
   delete_loop q sn rf t (f # fs) = (decrement_total sn rf t (fst f), [fst f])"
  by (simp add: Let_def)

lemma delete_loop_go:
  "\<not> to_gb (decrement_total sn rf t (fst f)) \<le> q \<Longrightarrow>
   delete_loop q sn rf t (f # fs) =
     (fst (delete_loop q sn rf (decrement_total sn rf t (fst f)) fs),
      fst f # snd (delete_loop q sn rf (decrement_total sn rf t (fst f)) fs))"
  by (simp add: Let_def)

declare delete_loop.simps(2) [simp del]

lemma delete_loop_prefix:
  "snd (delete_loop q sn rf t fs) = take (length (snd (delete_loop q sn rf t fs))) (map fst fs)"
proof (induction fs arbitrary: t)
  case Nil
  show ?case by simp
next
  case (Cons f fs)
  show ?case
  proof (cases "to_gb (decrement_total sn rf t (fst f)) \<le> q")
    case True
    then show ?thesis by (simp add: delete_loop_stop)
  next
    case False
    then show ?thesis
      using Cons.IH [of "decrement_total sn rf t (fst f)"] by (simp add: delete_loop_go)
  qed
qed

lemma delete_loop_done:
  "to_gb (fst (delete_loop q sn rf t fs)) \<le> q \<or> snd (delete_loop q sn rf t fs) = map fst fs"
proof (induction fs arbitrary: t)
  case Nil
  show ?case by simp
next
  case (Cons f fs)
  show ?case
  proof (cases "to_gb (decrement_total sn rf t (fst f)) \<le> q")
    case True
    then show ?thesis by (simp add: delete_loop_stop)
  next
    case False
    then show ?thesis
      using Cons.IH [of "decrement_total sn rf t (fst f)"] by (simp add: delete_loop_go)
  qed
qed

lemma delete_loop_mono:
  "unat (fst (delete_loop q sn rf t fs)) \<le> unat t"
proof (induction fs arbitrary: t)
  case Nil
  show ?case by simp
next
  case (Cons f fs)
  have a: "unat (decrement_total sn rf t (fst f)) \<le> unat t" by (rule decrement_total_le)
  show ?case
  proof (cases "to_gb (decrement_total sn rf t (fst f)) \<le> q")
    case True
    then show ?thesis using a by (simp add: delete_loop_stop)
  next
    case False
    have "unat (fst (delete_loop q sn rf (decrement_total sn rf t (fst f)) fs))
        \<le> unat (decrement_total sn rf t (fst f))" by (rule Cons.IH)
    with a False show ?thesis by (simp add: delete_loop_go)
  qed
qed

lemma delete_loop_total:
  "(\<forall>p \<in> set (snd (delete_loop q sn rf t fs)). \<not> rf p) \<Longrightarrow>
   unat (fst (delete_loop q sn rf t fs)) =
     unat t - sum_list (map (\<lambda>p. unat (sn p)) (snd (delete_loop q sn rf t fs)))"
proof (induction fs arbitrary: t)
  case Nil
  show ?case by simp
next
  case (Cons f fs)
  let ?t = "decrement_total sn rf t (fst f)"
  show ?case
  proof (cases "to_gb ?t \<le> q")
    case True
    with Cons.prems have "\<not> rf (fst f)" by (simp add: delete_loop_stop)
    then have "unat ?t = unat t - unat (sn (fst f))" by (rule decrement_total_removed)
    with True show ?thesis by (simp add: delete_loop_stop)
  next
    case False
    with Cons.prems have nf: "\<not> rf (fst f)"
      and rest: "\<forall>p \<in> set (snd (delete_loop q sn rf ?t fs)). \<not> rf p"
      by (simp_all add: delete_loop_go)
    from nf have st: "unat ?t = unat t - unat (sn (fst f))" by (rule decrement_total_removed)
    from rest have "unat (fst (delete_loop q sn rf ?t fs)) =
        unat ?t - sum_list (map (\<lambda>p. unat (sn p)) (snd (delete_loop q sn rf ?t fs)))"
      by (rule Cons.IH)
    with False st show ?thesis by (simp add: delete_loop_go)
  qed
qed

lemma scan_files_listed:
  "snd (scan_files es t fs) =
     fs @ List.map_filter
            (\<lambda>e. if media_file e \<and> file_size e \<noteq> None
                  then map_option (Pair (entry_path e)) (last_write_time e) else None) es"
  by (induction es t fs rule: scan_files.induct)
     (auto simp: List.map_filter_simps split: option.splits)


lemma scan_files_candidates: "snd (scan_files es 0 []) = candidates es"
  by (simp add: scan_files_listed candidates_def)

lemma candidates_counted:
  "(\<forall>e \<in> set es. media_file e \<and> file_size e \<noteq> None \<longrightarrow> last_write_time e \<noteq> None) \<Longrightarrow>
   map fst (candidates es) = counted_paths es"
  by (induction es) (auto simp: candidates_def counted_paths_def List.map_filter_simps)

text \<open>
  C5 as the code has it.  In a quota pass with a positive quota that the scanned total
  exceeds, the candidates are the scanned media files whose size and modification time
  could both be read.  \<^verbatim>\<open>std::sort\<close> with the comparison of lines 705--707 puts them in
  non-decreasing order of modification time, and \<^verbatim>\<open>fs::remove\<close> is called on a prefix of
  that order, none skipped.  The pass ends with the running total within the quota or
  with \<^verbatim>\<open>fs::remove\<close> called on every candidate.  The running total never grows and never
  wraps below zero; when no removal fails it is the scanned total minus the sizes of the
  removed files, cut off at zero.  When moreover the time of every scanned file could be
  read, the pass ends with the running total within the quota or with \<^verbatim>\<open>fs::remove\<close>
  called on every scanned file.
\<close>

theorem quota_pass_oldest_first:
  assumes "rearranges tie" and "0 < retention_max_gb cfg"
    and "retention_max_gb cfg < to_gb (fst (scan_files es 0 []))"
  shows "snd (scan_files es 0 []) = candidates es
         \<and> sorted (map snd (std_sort tie older (candidates es)))
         \<and> mset (std_sort tie older (candidates es)) = mset (candidates es)
         \<and> snd (quota_pass tie cfg sn rf (Some es)) =
             take (length (snd (quota_pass tie cfg sn rf (Some es))))
               (map fst (std_sort tie older (candidates es)))
         \<and> (to_gb (fst (quota_pass tie cfg sn rf (Some es))) \<le> retention_max_gb cfg
              \<or> snd (quota_pass tie cfg sn rf (Some es)) =
                  map fst (std_sort tie older (candidates es)))
         \<and> unat (fst (quota_pass tie cfg sn rf (Some es))) \<le> unat (fst (scan_files es 0 []))
         \<and> ((\<forall>p \<in> set (snd (quota_pass tie cfg sn rf (Some es))). \<not> rf p) \<longrightarrow>
              unat (fst (quota_pass tie cfg sn rf (Some es))) =
                unat (fst (scan_files es 0 []))
                - sum_list (map (\<lambda>p. unat (sn p)) (snd (quota_pass tie cfg sn rf (Some es)))))
         \<and> ((\<forall>e \<in> set es. media_file e \<and> file_size e \<noteq> None \<longrightarrow> last_write_time e \<noteq> None) \<longrightarrow>
              to_gb (fst (quota_pass tie cfg sn rf (Some es))) \<le> retention_max_gb cfg
              \<or> mset (snd (quota_pass tie cfg sn rf (Some es))) = mset (counted_paths es))"
proof -
  let ?sc = "scan_files es 0 []"
  let ?fs = "std_sort tie older (candidates es)"
  let ?qp = "quota_pass tie cfg sn rf (Some es)"
  have l: "snd ?sc = candidates es" by (rule scan_files_candidates)
  have q: "?qp = delete_loop (retention_max_gb cfg) sn rf (fst ?sc) ?fs"
    using assms(2,3) by (simp add: quota_pass_def Let_def l)
  have s: "sorted (map snd ?fs)" by (rule std_sort_sorted)
  have m: "mset ?fs = mset (candidates es)" using assms(1) by (rule std_sort_mset)
  have p: "snd ?qp = take (length (snd ?qp)) (map fst ?fs)"
    unfolding q by (rule delete_loop_prefix)
  have d: "to_gb (fst ?qp) \<le> retention_max_gb cfg \<or> snd ?qp = map fst ?fs"
    unfolding q by (rule delete_loop_done)
  have le: "unat (fst ?qp) \<le> unat (fst ?sc)"
    unfolding q by (rule delete_loop_mono)
  have t: "(\<forall>p \<in> set (snd ?qp). \<not> rf p) \<longrightarrow>
      unat (fst ?qp) = unat (fst ?sc) - sum_list (map (\<lambda>p. unat (sn p)) (snd ?qp))"
    unfolding q by (rule impI) (rule delete_loop_total)
  have a: "(\<forall>e \<in> set es. media_file e \<and> file_size e \<noteq> None \<longrightarrow> last_write_time e \<noteq> None) \<longrightarrow>
      to_gb (fst ?qp) \<le> retention_max_gb cfg \<or> mset (snd ?qp) = mset (counted_paths es)"
  proof
    assume "\<forall>e \<in> set es. media_file e \<and> file_size e \<noteq> None \<longrightarrow> last_write_time e \<noteq> None"
    then have c: "map fst (candidates es) = counted_paths es" by (rule candidates_counted)
    have "mset (map fst ?fs) = mset (map fst (candidates es))"
      using m by (simp only: mset_map)
    with c have "mset (map fst ?fs) = mset (counted_paths es)" by simp
    with d show "to_gb (fst ?qp) \<le> retention_max_gb cfg \<or> mset (snd ?qp) = mset (counted_paths es)"
      by auto
  qed
  from l s m p d le t a show ?thesis by (intro conjI)
qed

theorem quota_pass_oldest_first_witness:
  "snd (quota_pass (\<lambda>fs. fs) cfg_quota (\<lambda>p. gib) (\<lambda>p. False) (Some three_segments)) =
     [''/data/ch_0/b.mp4'', ''/data/ch_1/c.jpg'']
   \<and> fst (quota_pass (\<lambda>fs. fs) cfg_quota (\<lambda>p. gib) (\<lambda>p. False) (Some three_segments)) = gib
   \<and> std_sort (\<lambda>fs. fs) older (candidates three_segments) =
       [(''/data/ch_0/b.mp4'', 10), (''/data/ch_1/c.jpg'', 20), (''/data/ch_0/a.mp4'', 30)]
   \<and> unat (fst (quota_pass (\<lambda>fs. fs) cfg_quota (\<lambda>p. gib) (\<lambda>p. False) (Some three_segments)))
       = unat (fst (scan_files three_segments 0 []))
         - sum_list (map (\<lambda>p. unat gib)
             (snd (quota_pass (\<lambda>fs. fs) cfg_quota (\<lambda>p. gib) (\<lambda>p. False) (Some three_segments))))"
proof -
  let ?qp = "quota_pass (\<lambda>fs. fs) cfg_quota (\<lambda>p. gib) (\<lambda>p. False) (Some three_segments)"
  have sc: "fst (scan_files three_segments 0 []) = 3221225472"
    by (simp add: three_segments_def media_file_def extension_def filename_def gib_def)
  have h1: "rearranges (\<lambda>fs. fs)"
    by (simp add: rearranges_def)
  have h2: "0 < retention_max_gb cfg_quota"
    by (simp add: cfg_quota_def SaveVideo_init_def)
  have h3: "retention_max_gb cfg_quota < to_gb (fst (scan_files three_segments 0 []))"
    unfolding sc by (simp add: cfg_quota_def SaveVideo_init_def to_gb_gibibytes)
  have fl: "snd (scan_files three_segments 0 []) =
      [(''/data/ch_0/a.mp4'', 30), (''/data/ch_0/b.mp4'', 10), (''/data/ch_1/c.jpg'', 20)]"
    by (simp add: three_segments_def media_file_def extension_def filename_def)
  have st: "std_sort (\<lambda>fs. fs) older
        [(''/data/ch_0/a.mp4'', 30::int), (''/data/ch_0/b.mp4'', 10), (''/data/ch_1/c.jpg'', 20)]
      = [(''/data/ch_0/b.mp4'', 10), (''/data/ch_1/c.jpg'', 20), (''/data/ch_0/a.mp4'', 30)]"
    by (simp add: std_sort_def older_def)
  have dl: "delete_loop (3 / 2) (\<lambda>p. gib) (\<lambda>p. False) 3221225472
      [(''/data/ch_0/b.mp4'', 10), (''/data/ch_1/c.jpg'', 20), (''/data/ch_0/a.mp4'', 30)]
      = (gib, [''/data/ch_0/b.mp4'', ''/data/ch_1/c.jpg''])"
    by (simp add: delete_loop_go delete_loop_stop decrement_total_def gib_def to_gb_gibibytes)
  have q: "?qp = (gib, [''/data/ch_0/b.mp4'', ''/data/ch_1/c.jpg''])"
    using h3 dl by (simp add: quota_pass_def cfg_quota_def SaveVideo_init_def sc fl st Let_def)
  note inst = quota_pass_oldest_first [OF h1 h2 h3, of "\<lambda>p. gib" "\<lambda>p. False"]
  have nf: "\<forall>p \<in> set (snd ?qp). \<not> (\<lambda>p. False) p"
    by simp
  from inst have c: "snd (scan_files three_segments 0 []) = candidates three_segments"
    by (rule conjunct1)
  from inst have "(\<forall>p \<in> set (snd ?qp). \<not> (\<lambda>p. False) p) \<longrightarrow>
      unat (fst ?qp) = unat (fst (scan_files three_segments 0 []))
         - sum_list (map (\<lambda>p. unat gib) (snd ?qp))"
    by (rule conjunct1 [OF conjunct2 [OF conjunct2 [OF conjunct2 [OF conjunct2
          [OF conjunct2 [OF conjunct2]]]]]])
  then have u: "unat (fst ?qp) = unat (fst (scan_files three_segments 0 []))
         - sum_list (map (\<lambda>p. unat gib) (snd ?qp))"
    using nf by (rule mp)
  have s: "std_sort (\<lambda>fs. fs) older (candidates three_segments) =
       [(''/data/ch_0/b.mp4'', 10), (''/data/ch_1/c.jpg'', 20), (''/data/ch_0/a.mp4'', 30)]"
    using st unfolding c [symmetric] fl .
  from q s u show ?thesis by simp
qed

text \<open>
  C5 with total bytes within the quota or all scanned files removed at the end does not
  hold.  A scanned file whose modification time cannot be read is counted in the total
  and is never a candidate: the pass ends above the quota with nothing removed.  And a
  removal that fails leaves the running total as it was: \<^verbatim>\<open>fs::remove\<close> is called on every
  candidate, none is removed, and the pass ends above the quota.
\<close>

theorem quota_pass_ends_above_quota:
  "quota_pass (\<lambda>fs. fs) cfg_quota (\<lambda>p. 3 * gib) (\<lambda>p. False) (Some untimed_segment)
     = (3221225472, [])
   \<and> counted_paths untimed_segment = [''/data/ch_0/a.mp4'']
   \<and> retention_max_gb cfg_quota < to_gb 3221225472
   \<and> quota_pass (\<lambda>fs. fs) cfg_quota (\<lambda>p. gib) (\<lambda>p. True) (Some three_segments)
       = (3221225472, [''/data/ch_0/b.mp4'', ''/data/ch_1/c.jpg'', ''/data/ch_0/a.mp4''])"
proof -
  have q: "retention_max_gb cfg_quota = 3 / 2"
    by (simp add: cfg_quota_def SaveVideo_init_def)
  have sc1: "scan_files untimed_segment 0 [] = (3221225472, [])"
    by (simp add: untimed_segment_def media_file_def extension_def filename_def gib_def)
  have a: "quota_pass (\<lambda>fs. fs) cfg_quota (\<lambda>p. 3 * gib) (\<lambda>p. False) (Some untimed_segment)
     = (3221225472, [])"
    by (simp add: quota_pass_def q sc1 to_gb_gibibytes std_sort_def)
  have b: "counted_paths untimed_segment = [''/data/ch_0/a.mp4'']"
    by (simp add: counted_paths_def untimed_segment_def media_file_def extension_def filename_def)
  have c: "retention_max_gb cfg_quota < to_gb 3221225472"
    by (simp add: q to_gb_gibibytes)
  have sc2: "scan_files three_segments 0 [] = (3221225472,
      [(''/data/ch_0/a.mp4'', 30), (''/data/ch_0/b.mp4'', 10), (''/data/ch_1/c.jpg'', 20)])"
    by (simp add: three_segments_def media_file_def extension_def filename_def gib_def)
  have dl: "delete_loop (3 / 2) (\<lambda>p. gib) (\<lambda>p. True) 3221225472
      [(''/data/ch_0/b.mp4'', 10), (''/data/ch_1/c.jpg'', 20), (''/data/ch_0/a.mp4'', 30)]
      = (3221225472, [''/data/ch_0/b.mp4'', ''/data/ch_1/c.jpg'', ''/data/ch_0/a.mp4''])"
    by (simp add: delete_loop_go decrement_total_def to_gb_gibibytes)
  have d: "quota_pass (\<lambda>fs. fs) cfg_quota (\<lambda>p. gib) (\<lambda>p. True) (Some three_segments)
       = (3221225472, [''/data/ch_0/b.mp4'', ''/data/ch_1/c.jpg'', ''/data/ch_0/a.mp4''])"
    by (simp add: quota_pass_def q sc2 to_gb_gibibytes std_sort_def older_def dl)
  from a b c d show ?thesis by (intro conjI)
qed

end
